theory Spec2Isabelle
  imports Main "HOL-Library.Monad_Syntax"
begin

section \<open>Data model\<close>

text \<open>
  A \<open>Node<T>\<close> object of \<open>types.d.ts\<close> has a data value and three links, each a
  reference to another node or \<open>null\<close>. Objects live in a store, the list of all nodes
  created so far; a reference is the index of the node in that list, and \<open>null\<close> is
  \<open>None\<close>. A new object gets the next free index, so it is distinct from every
  existing one, as a fresh JavaScript object is. The class \<open>SplayTreeImpl\<close> has one
  field, \<open>root\<close>.
\<close>

type_synonym ref = nat

record 'a node =
  data :: 'a
  left :: "ref option"
  right :: "ref option"
  parent :: "ref option"

record 'a splay_tree =
  root :: "ref option"
  nodes :: "'a node list"

text \<open>Field reads \<open>n.left\<close>, \<open>n.right\<close>, \<open>n.parent\<close>, \<open>n.data\<close>.\<close>

definition left_of :: "'a splay_tree \<Rightarrow> ref \<Rightarrow> ref option" where
  "left_of t a = left (nodes t ! a)"

definition right_of :: "'a splay_tree \<Rightarrow> ref \<Rightarrow> ref option" where
  "right_of t a = right (nodes t ! a)"

definition parent_of :: "'a splay_tree \<Rightarrow> ref \<Rightarrow> ref option" where
  "parent_of t a = parent (nodes t ! a)"

definition data_of :: "'a splay_tree \<Rightarrow> ref \<Rightarrow> 'a" where
  "data_of t a = data (nodes t ! a)"

text \<open>Field writes \<open>n.left = v\<close>, \<open>n.right = v\<close>, \<open>n.parent = v\<close>.\<close>

definition set_left :: "ref \<Rightarrow> ref option \<Rightarrow> 'a splay_tree \<Rightarrow> 'a splay_tree" where
  "set_left a v t = t\<lparr>nodes := (nodes t)[a := (nodes t ! a)\<lparr>left := v\<rparr>]\<rparr>"

definition set_right :: "ref \<Rightarrow> ref option \<Rightarrow> 'a splay_tree \<Rightarrow> 'a splay_tree" where
  "set_right a v t = t\<lparr>nodes := (nodes t)[a := (nodes t ! a)\<lparr>right := v\<rparr>]\<rparr>"

definition set_parent :: "ref \<Rightarrow> ref option \<Rightarrow> 'a splay_tree \<Rightarrow> 'a splay_tree" where
  "set_parent a v t = t\<lparr>nodes := (nodes t)[a := (nodes t ! a)\<lparr>parent := v\<rparr>]\<rparr>"

definition set_root :: "ref option \<Rightarrow> 'a splay_tree \<Rightarrow> 'a splay_tree" where
  "set_root v t = t\<lparr>root := v\<rparr>"

section \<open>The operations of \<open>SplayTree.ts\<close>\<close>

text \<open>The constructor: \<open>this.root = null\<close>, and no node exists yet.\<close>

definition new_tree :: "'a splay_tree" where
  "new_tree = \<lparr>root = None, nodes = []\<rparr>"

definition getRoot :: "'a splay_tree \<Rightarrow> ref option" where
  "getRoot t = root t"

subsection \<open>Rotations\<close>

text \<open>
  \<open>leftRotate(node)\<close>, statement by statement. The first and the last block run only
  when \<open>newParent = node.right\<close> is present; the middle block, which replaces
  \<open>node\<close> by \<open>newParent\<close> in the root field or in the parent's child link, runs
  always.
\<close>

definition leftRotate :: "'a splay_tree \<Rightarrow> ref \<Rightarrow> 'a splay_tree" where
  "leftRotate t node =
    (let newParent = right_of t node;
         t1 = (case newParent of
                 None \<Rightarrow> t
               | Some np \<Rightarrow>
                   let u1 = set_right node (left_of t np) t;
                       u2 = (case left_of u1 np of
                               None \<Rightarrow> u1
                             | Some c \<Rightarrow> set_parent c (Some node) u1)
                   in set_parent np (parent_of u2 node) u2);
         t2 = (case parent_of t1 node of
                 None \<Rightarrow> set_root newParent t1
               | Some q \<Rightarrow>
                   if Some node = left_of t1 q then set_left q newParent t1
                   else set_right q newParent t1)
     in (case newParent of
           None \<Rightarrow> t2
         | Some np \<Rightarrow> set_parent node (Some np) (set_left np (Some node) t2)))"

text \<open>
  \<open>rightRotate(node)\<close>. Its first assignment is \<open>node.left = newParent.left\<close>, as
  the source has it.
\<close>

definition rightRotate :: "'a splay_tree \<Rightarrow> ref \<Rightarrow> 'a splay_tree" where
  "rightRotate t node =
    (let newParent = left_of t node;
         t1 = (case newParent of
                 None \<Rightarrow> t
               | Some np \<Rightarrow>
                   let u1 = set_left node (left_of t np) t;
                       u2 = (case right_of u1 np of
                               None \<Rightarrow> u1
                             | Some c \<Rightarrow> set_parent c (Some node) u1)
                   in set_parent np (parent_of u2 node) u2);
         t2 = (case parent_of t1 node of
                 None \<Rightarrow> set_root newParent t1
               | Some q \<Rightarrow>
                   if Some node = right_of t1 q then set_right q newParent t1
                   else set_left q newParent t1)
     in (case newParent of
           None \<Rightarrow> t2
         | Some np \<Rightarrow> set_parent node (Some np) (set_right np (Some node) t2)))"

subsection \<open>Search\<close>

text \<open>
  The descent of \<open>search\<close>. The loop may run forever on a store whose links form a
  cycle, so it is a partial function: \<open>None\<close> is "does not return". The tree is
  threaded through and returned beside the result, so that what \<open>search\<close> does to
  the tree is part of its value.
\<close>

partial_function (option) search_loop ::
  "'a::linorder splay_tree \<Rightarrow> 'a \<Rightarrow> ref option \<Rightarrow> (ref option \<times> 'a splay_tree) option" where
  "search_loop t d cur =
    (case cur of
       None \<Rightarrow> Some (None, t)
     | Some a \<Rightarrow>
         if data_of t a = d then Some (Some a, t)
         else if data_of t a > d then search_loop t d (left_of t a)
         else search_loop t d (right_of t a))"

declare search_loop.simps [code]

definition search :: "'a::linorder splay_tree \<Rightarrow> 'a \<Rightarrow> (ref option \<times> 'a splay_tree) option" where
  "search t d = (case root t of None \<Rightarrow> Some (None, t) | Some r \<Rightarrow> search_loop t d (Some r))"

subsection \<open>Splay\<close>

text \<open>
  One iteration of the \<open>while\<close> loop of \<open>splay\<close>. \<open>r\<close> is the constant
  \<open>root\<close> read once before the loop; \<open>parent\<close> and \<open>grandParent\<close> are read
  before the rotations of the iteration.
\<close>

definition splay_step :: "ref \<Rightarrow> ref \<Rightarrow> 'a splay_tree \<Rightarrow> 'a splay_tree" where
  "splay_step r node t =
    (if parent_of t node = Some r then
       (if Some node = left_of t r then rightRotate t r else leftRotate t r)
     else
       (case parent_of t node of
          None \<Rightarrow> t
        | Some p \<Rightarrow>
            (case parent_of t p of
               None \<Rightarrow> t
             | Some g \<Rightarrow>
                 if Some p = left_of t g then
                   (if Some node = left_of t p then rightRotate (rightRotate t g) p
                    else rightRotate (leftRotate t p) g)
                 else if Some p = right_of t g then
                   (if Some node = right_of t p then leftRotate (leftRotate t g) p
                    else leftRotate (rightRotate t p) g)
                 else t)))"

partial_function (option) splay_loop ::
  "ref \<Rightarrow> ref \<Rightarrow> 'a splay_tree \<Rightarrow> 'a splay_tree option" where
  "splay_loop r node t =
    (if root t = Some node then Some t else splay_loop r node (splay_step r node t))"

declare splay_loop.simps [code]

definition splay :: "'a splay_tree \<Rightarrow> ref \<Rightarrow> 'a splay_tree option" where
  "splay t node = (case root t of None \<Rightarrow> Some t | Some r \<Rightarrow> splay_loop r node t)"

subsection \<open>Extremal nodes and traversal\<close>

partial_function (option) findMax :: "'a splay_tree \<Rightarrow> ref \<Rightarrow> ref option" where
  "findMax t node = (case right_of t node of None \<Rightarrow> Some node | Some c \<Rightarrow> findMax t c)"

declare findMax.simps [code]

partial_function (option) findMin :: "'a splay_tree \<Rightarrow> ref \<Rightarrow> ref option" where
  "findMin t node = (case left_of t node of None \<Rightarrow> Some node | Some c \<Rightarrow> findMin t c)"

declare findMin.simps [code]

text \<open>
  \<open>inorderHelper\<close> pushes onto the array \<open>result\<close>; the model passes the array
  along and returns it.
\<close>

partial_function (option) inorderHelper ::
  "'a splay_tree \<Rightarrow> ref option \<Rightarrow> 'a list \<Rightarrow> 'a list option" where
  "inorderHelper t cur result =
    (case cur of
       None \<Rightarrow> Some result
     | Some a \<Rightarrow>
         Option.bind (inorderHelper t (left_of t a) result)
           (\<lambda>res1. inorderHelper t (right_of t a) (res1 @ [data_of t a])))"

declare inorderHelper.simps [code]

definition inorder :: "'a splay_tree \<Rightarrow> 'a list option" where
  "inorder t = inorderHelper t (root t) []"

subsection \<open>Insert and delete\<close>

text \<open>
  The second descent of \<open>insert\<close>: it returns the last node visited before the
  link became \<open>null\<close>.
\<close>

partial_function (option) insert_descent ::
  "'a::linorder splay_tree \<Rightarrow> 'a \<Rightarrow> ref option \<Rightarrow> ref option \<Rightarrow> ref option option" where
  "insert_descent t d current par =
    (case current of
       None \<Rightarrow> Some par
     | Some c \<Rightarrow>
         if d < data_of t c then insert_descent t d (left_of t c) (Some c)
         else insert_descent t d (right_of t c) (Some c))"

declare insert_descent.simps [code]

definition alloc :: "'a \<Rightarrow> 'a splay_tree \<Rightarrow> 'a splay_tree" where
  "alloc d t = t\<lparr>nodes := nodes t @ [\<lparr>data = d, left = None, right = None, parent = None\<rparr>]\<rparr>"

definition insert_key :: "'a::linorder splay_tree \<Rightarrow> 'a \<Rightarrow> 'a splay_tree option" where
  "insert_key t0 d =
    Option.bind (search t0 d) (\<lambda>(found, t).
      case found of
        Some node \<Rightarrow> splay t node
      | None \<Rightarrow>
          (let newNode = length (nodes t);
               t1 = alloc d t
           in case root t1 of
                None \<Rightarrow> Some (set_root (Some newNode) t1)
              | Some r \<Rightarrow>
                  Option.bind (insert_descent t1 d (Some r) None) (\<lambda>par.
                    let t2 = (case par of
                                None \<Rightarrow> t1
                              | Some p \<Rightarrow>
                                  set_parent newNode (Some p)
                                    (if d < data_of t1 p then set_left p (Some newNode) t1
                                     else set_right p (Some newNode) t1))
                    in splay t2 newNode)))"

definition delete_key :: "'a::linorder splay_tree \<Rightarrow> 'a \<Rightarrow> 'a splay_tree option" where
  "delete_key t0 d =
    Option.bind (search t0 d) (\<lambda>(found, t).
      case found of
        None \<Rightarrow> Some t
      | Some node \<Rightarrow>
          Option.bind (splay t node) (\<lambda>t1.
            case left_of t1 node of
              Some l \<Rightarrow>
                Option.bind (findMax t1 l) (\<lambda>max.
                  Option.bind (splay t1 max) (\<lambda>t2.
                    Some (set_root (Some max) (set_right max (right_of t2 node) t2))))
            | None \<Rightarrow> Some (set_root (right_of t1 node) t1)))"

text \<open>A sequence of calls of the public interface, from left to right.\<close>

datatype 'a op = Insert 'a | Delete 'a | Search 'a

fun apply_op :: "'a::linorder splay_tree \<Rightarrow> 'a op \<Rightarrow> 'a splay_tree option" where
  "apply_op t (Insert d) = insert_key t d"
| "apply_op t (Delete d) = delete_key t d"
| "apply_op t (Search d) = map_option snd (search t d)"

fun run :: "'a::linorder splay_tree \<Rightarrow> 'a op list \<Rightarrow> 'a splay_tree option" where
  "run t [] = Some t"
| "run t (x # xs) = Option.bind (apply_op t x) (\<lambda>t'. run t' xs)"


section \<open>Well-formed trees\<close>

text \<open>
  The invariants of the data model, stated against the shape the links should have.
  A shape is a binary tree of references. \<open>tree_at t par cur T\<close> says that the link
  \<open>cur\<close> leads to a subtree of shape \<open>T\<close> whose top node has the parent link
  \<open>par\<close>: every node of the shape exists, its child links lead to the sub-shapes,
  and the parent link of every child names the node that owns it. \<open>refs\<close> lists
  the nodes of a shape from left to right.
\<close>

datatype btree = Tip | Br btree ref btree

fun refs :: "btree \<Rightarrow> ref list" where
  "refs Tip = []"
| "refs (Br l a r) = refs l @ a # refs r"

fun tree_at :: "'a splay_tree \<Rightarrow> ref option \<Rightarrow> ref option \<Rightarrow> btree \<Rightarrow> bool" where
  "tree_at t par None Tip = True"
| "tree_at t par (Some a) (Br l b r) =
     (a = b \<and> a < length (nodes t) \<and> parent_of t a = par \<and>
      tree_at t (Some a) (left_of t a) l \<and> tree_at t (Some a) (right_of t a) r)"
| "tree_at t par None (Br l b r) = False"
| "tree_at t par (Some a) Tip = False"

text \<open>
  Order: at every node all keys of the left subtree are smaller and all keys of the
  right subtree are greater than the key of the node.
\<close>

fun bst_order :: "'a::linorder splay_tree \<Rightarrow> btree \<Rightarrow> bool" where
  "bst_order t Tip = True"
| "bst_order t (Br l a r) =
     ((\<forall>b\<in>set (refs l). data_of t b < data_of t a) \<and>
      (\<forall>b\<in>set (refs r). data_of t a < data_of t b) \<and>
      bst_order t l \<and> bst_order t r)"

text \<open>
  A tree is well-formed with shape \<open>T\<close> when the root link leads to \<open>T\<close>, the root
  has no parent, and the keys are in order. The nodes reachable from the root are then
  \<open>refs T\<close>, and no node occurs twice in \<open>T\<close>.
\<close>

definition wf_tree :: "'a::linorder splay_tree \<Rightarrow> btree \<Rightarrow> bool" where
  "wf_tree t T \<longleftrightarrow> tree_at t None (root t) T \<and> bst_order t T"

section \<open>Depth of a node\<close>

text \<open>
  \<open>at_depth t a k\<close>: following the parent link \<open>k\<close> times from \<open>a\<close> reaches the
  root of the tree, which has no parent, and every node on the way is a child of its parent.
\<close>

inductive at_depth :: "'a splay_tree \<Rightarrow> ref \<Rightarrow> nat \<Rightarrow> bool" for t where
  at_root: "root t = Some a \<Longrightarrow> parent_of t a = None \<Longrightarrow> at_depth t a 0"
| at_child: "parent_of t a = Some p \<Longrightarrow> left_of t p = Some a \<or> right_of t p = Some a \<Longrightarrow>
             at_depth t p k \<Longrightarrow> at_depth t a (Suc k)"

text \<open>
  The path from a node to the root, as the list of its ancestors (parent first, root
  last). \<open>upchain t tp x as\<close>: the parent links from \<open>x\<close> run through \<open>as\<close>, each
  node is a child of the next, and the parent link of the last one is \<open>tp\<close>.
  \<open>noup t ys\<close>: no child link of a node of \<open>ys\<close> leads to that node or to a later
  one of \<open>ys\<close>. \<open>spine t x as\<close> is what the loop of \<open>splay\<close> keeps true of the
  node it moves: nothing more of the tree below, beside or above the path is assumed.
\<close>

fun upchain :: "'a splay_tree \<Rightarrow> ref option \<Rightarrow> ref \<Rightarrow> ref list \<Rightarrow> bool" where
  "upchain t tp x [] = (parent_of t x = tp)"
| "upchain t tp x (p # as) =
     (parent_of t x = Some p \<and> (left_of t p = Some x \<or> right_of t p = Some x) \<and> upchain t tp p as)"

fun noup :: "'a splay_tree \<Rightarrow> ref list \<Rightarrow> bool" where
  "noup t [] = True"
| "noup t (y # ys) =
     ((\<forall>a\<in>set (y # ys). left_of t y \<noteq> Some a \<and> right_of t y \<noteq> Some a) \<and> noup t ys)"

definition spine :: "'a splay_tree \<Rightarrow> ref \<Rightarrow> ref list \<Rightarrow> bool" where
  "spine t x as \<longleftrightarrow>
     distinct (x # as) \<and> (\<forall>a\<in>set (x # as). a < length (nodes t)) \<and>
     upchain t None x as \<and> noup t (x # as) \<and> root t = Some (last (x # as))"

text \<open>
  What a double rotation does to the node \<open>x\<close>, its parent \<open>p\<close> and grandparent
  \<open>g\<close>, as far as the path to the root is concerned: \<open>x\<close> takes the place of
  \<open>g\<close> under the parent of \<open>g\<close> (or in the root field); its children are among its
  old children, \<open>p\<close> and \<open>g\<close>; of the other nodes only children of \<open>x\<close> and \<open>p\<close>
  get a new parent link, and only the parent of \<open>g\<close> gets a new child link.
\<close>

definition lifted :: "'a splay_tree \<Rightarrow> 'a splay_tree \<Rightarrow> ref \<Rightarrow> ref \<Rightarrow> ref \<Rightarrow> bool" where
  "lifted t t' x p g \<longleftrightarrow>
     length (nodes t') = length (nodes t) \<and>
     root t' = (if parent_of t g = None then Some x else root t) \<and>
     parent_of t' x = parent_of t g \<and>
     left_of t' x \<in> {left_of t x, right_of t x, Some p, Some g} \<and>
     right_of t' x \<in> {left_of t x, right_of t x, Some p, Some g} \<and>
     (\<forall>a < length (nodes t). a \<notin> {x, p, g} \<longrightarrow>
        (parent_of t' a \<noteq> parent_of t a \<longrightarrow>
           Some a \<in> {left_of t x, right_of t x, left_of t p, right_of t p}) \<and>
        (parent_of t g \<noteq> Some a \<longrightarrow>
           left_of t' a = left_of t a \<and> right_of t' a = right_of t a) \<and>
        (parent_of t g = Some a \<longrightarrow>
           left_of t' a \<in> {left_of t a, Some p, Some x} \<and>
           right_of t' a \<in> {right_of t a, Some p, Some x} \<and>
           (left_of t' a = Some x \<or> right_of t' a = Some x)))"





definition last_opt :: "'b list \<Rightarrow> 'b option" where
  "last_opt xs = (if xs = [] then None else Some (last xs))"

section \<open>Concrete trees\<close>

text \<open>The tree with the single key 1.\<close>

definition single :: "int splay_tree" where
  "single = \<lparr>root = Some 0, nodes = [\<lparr>data = 1, left = None, right = None, parent = None\<rparr>]\<rparr>"

text \<open>The tree after inserting 1, 2, 3: the root 3, its left child 2, whose left child is 1.\<close>

definition left_chain :: "int splay_tree" where
  "left_chain =
    \<lparr>root = Some 2,
     nodes = [\<lparr>data = 1, left = None, right = None, parent = Some 1\<rparr>,
              \<lparr>data = 2, left = Some 0, right = None, parent = Some 2\<rparr>,
              \<lparr>data = 3, left = Some 1, right = None, parent = None\<rparr>]\<rparr>"

text \<open>The tree after inserting 2 and 1 and deleting 1: the root is the node of key 2.\<close>

definition stale_root :: "int splay_tree" where
  "stale_root =
    \<lparr>root = Some 0,
     nodes = [\<lparr>data = 2, left = None, right = None, parent = Some 1\<rparr>,
              \<lparr>data = 1, left = None, right = Some 0, parent = None\<rparr>]\<rparr>"

text \<open>
  \<open>insert(3)\<close> on \<open>stale_root\<close>: the store when the new node has been linked under the
  root, and the store after the first iteration of \<open>splay\<close>.
\<close>

definition pre_splay :: "int splay_tree" where
  "pre_splay =
    \<lparr>root = Some 0,
     nodes = [\<lparr>data = 2, left = None, right = Some 2, parent = Some 1\<rparr>,
              \<lparr>data = 1, left = None, right = Some 0, parent = None\<rparr>,
              \<lparr>data = 3, left = None, right = None, parent = Some 0\<rparr>]\<rparr>"

definition stuck_state :: "int splay_tree" where
  "stuck_state =
    \<lparr>root = Some 0,
     nodes = [\<lparr>data = 2, left = None, right = None, parent = Some 2\<rparr>,
              \<lparr>data = 1, left = None, right = Some 2, parent = None\<rparr>,
              \<lparr>data = 3, left = Some 0, right = None, parent = Some 1\<rparr>]\<rparr>"

text \<open>The tree after inserting 1, 2, 3 and deleting 2.\<close>

definition cyclic_state :: "int splay_tree" where
  "cyclic_state =
    \<lparr>root = Some 0,
     nodes = [\<lparr>data = 1, left = None, right = Some 2, parent = None\<rparr>,
              \<lparr>data = 2, left = None, right = Some 2, parent = Some 0\<rparr>,
              \<lparr>data = 3, left = Some 0, right = None, parent = Some 1\<rparr>]\<rparr>"

text \<open>The shape of \<open>left_chain\<close>.\<close>

definition chain_shape :: btree where
  "chain_shape = Br (Br (Br Tip 0 Tip) 1 Tip) 2 Tip"


text \<open>
  The store after inserting 1, 4, 2, 3: the root is the node of key 3, its right child
  the node of key 2, and the node of key 1 is the left child of the nodes of keys 3, 2
  and 4 at once.
\<close>

definition shadowed :: "int splay_tree" where
  "shadowed =
    \<lparr>root = Some 3,
     nodes = [\<lparr>data = 1, left = None, right = None, parent = Some 3\<rparr>,
              \<lparr>data = 4, left = Some 0, right = None, parent = Some 2\<rparr>,
              \<lparr>data = 2, left = Some 0, right = Some 1, parent = Some 3\<rparr>,
              \<lparr>data = 3, left = Some 0, right = Some 2, parent = None\<rparr>]\<rparr>"

section \<open>Reading fields after writes\<close>

lemma nth_upd: "(xs[i := v]) ! j = (if j = i \<and> i < length xs then v else xs ! j)"
  by (cases "i < length xs") (auto simp: nth_list_update list_update_beyond)

lemma size_set [simp]:
  "length (nodes (set_left a v t)) = length (nodes t)"
  "length (nodes (set_right a v t)) = length (nodes t)"
  "length (nodes (set_parent a v t)) = length (nodes t)"
  "length (nodes (set_root w t)) = length (nodes t)"
  by (simp_all add: set_left_def set_right_def set_parent_def set_root_def)

lemma root_set [simp]:
  "root (set_left a v t) = root t"
  "root (set_right a v t) = root t"
  "root (set_parent a v t) = root t"
  "root (set_root w t) = w"
  by (simp_all add: set_left_def set_right_def set_parent_def set_root_def)

lemma left_of_set [simp]:
  "left_of (set_left a v t) b = (if b = a \<and> a < length (nodes t) then v else left_of t b)"
  "left_of (set_right a v t) b = left_of t b"
  "left_of (set_parent a v t) b = left_of t b"
  "left_of (set_root w t) b = left_of t b"
  by (simp_all add: left_of_def set_left_def set_right_def set_parent_def set_root_def nth_upd)

lemma right_of_set [simp]:
  "right_of (set_left a v t) b = right_of t b"
  "right_of (set_right a v t) b = (if b = a \<and> a < length (nodes t) then v else right_of t b)"
  "right_of (set_parent a v t) b = right_of t b"
  "right_of (set_root w t) b = right_of t b"
  by (simp_all add: right_of_def set_left_def set_right_def set_parent_def set_root_def nth_upd)

lemma parent_of_set [simp]:
  "parent_of (set_left a v t) b = parent_of t b"
  "parent_of (set_right a v t) b = parent_of t b"
  "parent_of (set_parent a v t) b = (if b = a \<and> a < length (nodes t) then v else parent_of t b)"
  "parent_of (set_root w t) b = parent_of t b"
  by (simp_all add: parent_of_def set_left_def set_right_def set_parent_def set_root_def nth_upd)

lemma data_of_set [simp]:
  "data_of (set_left a v t) b = data_of t b"
  "data_of (set_right a v t) b = data_of t b"
  "data_of (set_parent a v t) b = data_of t b"
  "data_of (set_root w t) b = data_of t b"
  by (simp_all add: data_of_def set_left_def set_right_def set_parent_def set_root_def nth_upd)

section \<open>What one rotation does\<close>

text \<open>
  \<open>rightRotate(n)\<close> with the left child \<open>l\<close> present, \<open>n\<close> not a child of \<open>l\<close> and
  the parent of \<open>n\<close> neither \<open>n\<close> nor \<open>l\<close>. The node \<open>l\<close> takes the place of \<open>n\<close>
  and \<open>n\<close> becomes its right child; the left link of \<open>n\<close> becomes the old left link
  of \<open>l\<close>.
\<close>

lemma rightRotate_effect:
  assumes "n < length (nodes t)" "l < length (nodes t)" "n \<noteq> l"
    and "left_of t n = Some l" "right_of t l \<noteq> Some n"
    and "parent_of t n \<noteq> Some n" "parent_of t n \<noteq> Some l"
  shows "length (nodes (rightRotate t n)) = length (nodes t)"
    and "root (rightRotate t n) = (if parent_of t n = None then Some l else root t)"
    and "parent_of (rightRotate t n) l = parent_of t n"
    and "right_of (rightRotate t n) l = Some n"
    and "left_of (rightRotate t n) l = left_of t l"
    and "parent_of (rightRotate t n) n = Some l"
    and "left_of (rightRotate t n) n = left_of t l"
    and "right_of (rightRotate t n) n = right_of t n"
    and "\<And>a. a < length (nodes t) \<Longrightarrow> a \<noteq> n \<Longrightarrow> a \<noteq> l \<Longrightarrow>
          parent_of (rightRotate t n) a = (if right_of t l = Some a then Some n else parent_of t a)"
    and "\<And>a. a < length (nodes t) \<Longrightarrow> a \<noteq> n \<Longrightarrow> a \<noteq> l \<Longrightarrow>
          left_of (rightRotate t n) a =
            (if parent_of t n = Some a \<and> right_of t a \<noteq> Some n then Some l else left_of t a)"
    and "\<And>a. a < length (nodes t) \<Longrightarrow> a \<noteq> n \<Longrightarrow> a \<noteq> l \<Longrightarrow>
          right_of (rightRotate t n) a =
            (if parent_of t n = Some a \<and> right_of t a = Some n then Some l else right_of t a)"
  using assms
  by (auto simp: rightRotate_def Let_def split: option.splits)

text \<open>\<open>leftRotate(n)\<close> with the right child \<open>r\<close> present, under the mirrored conditions.\<close>

lemma leftRotate_effect:
  assumes "n < length (nodes t)" "r < length (nodes t)" "n \<noteq> r"
    and "right_of t n = Some r" "left_of t r \<noteq> Some n"
    and "parent_of t n \<noteq> Some n" "parent_of t n \<noteq> Some r"
  shows "length (nodes (leftRotate t n)) = length (nodes t)"
    and "root (leftRotate t n) = (if parent_of t n = None then Some r else root t)"
    and "parent_of (leftRotate t n) r = parent_of t n"
    and "left_of (leftRotate t n) r = Some n"
    and "right_of (leftRotate t n) r = right_of t r"
    and "parent_of (leftRotate t n) n = Some r"
    and "right_of (leftRotate t n) n = left_of t r"
    and "left_of (leftRotate t n) n = left_of t n"
    and "\<And>a. a < length (nodes t) \<Longrightarrow> a \<noteq> n \<Longrightarrow> a \<noteq> r \<Longrightarrow>
          parent_of (leftRotate t n) a = (if left_of t r = Some a then Some n else parent_of t a)"
    and "\<And>a. a < length (nodes t) \<Longrightarrow> a \<noteq> n \<Longrightarrow> a \<noteq> r \<Longrightarrow>
          left_of (leftRotate t n) a =
            (if parent_of t n = Some a \<and> left_of t a = Some n then Some r else left_of t a)"
    and "\<And>a. a < length (nodes t) \<Longrightarrow> a \<noteq> n \<Longrightarrow> a \<noteq> r \<Longrightarrow>
          right_of (leftRotate t n) a =
            (if parent_of t n = Some a \<and> left_of t a \<noteq> Some n then Some r else right_of t a)"
  using assms
  by (auto simp: leftRotate_def Let_def split: option.splits)

section \<open>The four double rotations\<close>

text \<open>
  For each of the four double rotations of \<open>splay\<close>: the effect on the path to the root
  (\<open>lifted\<close>), the new child links of \<open>x\<close>, the node that becomes the left child of
  \<open>x\<close> and takes over its old left link, the parent link of the old left child of
  \<open>x\<close>, and the child links of the parent \<open>q\<close> of the grandparent.
\<close>

lemma double_RR:
  assumes v: "x < length (nodes t)" "p < length (nodes t)" "g < length (nodes t)"
    and d: "x \<noteq> p" "x \<noteq> g" "p \<noteq> g"
    and px: "parent_of t x = Some p" and pp: "parent_of t p = Some g"
    and pg: "parent_of t g \<notin> {Some x, Some p, Some g}"
    and cx: "left_of t x \<notin> {Some x, Some p, Some g}" "right_of t x \<notin> {Some x, Some p, Some g}"
    and cp: "left_of t p \<notin> {Some p, Some g}" "right_of t p \<notin> {Some p, Some g}"
    and lg: "left_of t g = Some p" and lp: "left_of t p = Some x"
  shows "lifted t (rightRotate (rightRotate t g) p) x p g"
    and "left_of (rightRotate (rightRotate t g) p) x = left_of t x"
    and "right_of (rightRotate (rightRotate t g) p) x = Some p"
    and "\<And>c. left_of t x = Some c \<Longrightarrow> c < length (nodes t) \<Longrightarrow>
          right_of t x \<noteq> Some c \<Longrightarrow> left_of t p \<noteq> Some c \<Longrightarrow> right_of t p \<noteq> Some c \<Longrightarrow>
          parent_of (rightRotate (rightRotate t g) p) c = parent_of t c"
    and "\<And>q. parent_of t g = Some q \<Longrightarrow> q < length (nodes t) \<Longrightarrow> left_of t q = Some g \<Longrightarrow>
          right_of t q \<notin> {Some x, Some p, Some g} \<Longrightarrow>
          left_of (rightRotate (rightRotate t g) p) q = Some x \<and> right_of (rightRotate (rightRotate t g) p) q = right_of t q"
    and "\<And>q. parent_of t g = Some q \<Longrightarrow> q < length (nodes t) \<Longrightarrow> right_of t q = Some g \<Longrightarrow>
          left_of t q \<notin> {Some x, Some p, Some g} \<Longrightarrow>
          right_of (rightRotate (rightRotate t g) p) q = Some x \<and> left_of (rightRotate (rightRotate t g) p) q = left_of t q"
proof -
  let ?t1 = "rightRotate t g"
  note r1 = rightRotate_effect [of g t p]
  have e1:
    "length (nodes (rightRotate t g)) = length (nodes t)"
    "root (rightRotate t g) = (if parent_of t g = None then Some p else root t)"
    "parent_of (rightRotate t g) p = parent_of t g"
    "right_of (rightRotate t g) p = Some g"
    "left_of (rightRotate t g) p = left_of t p"
    "parent_of (rightRotate t g) g = Some p"
    "left_of (rightRotate t g) g = left_of t p"
    "right_of (rightRotate t g) g = right_of t g"
    using v d lg lp cx cp pg pp by (simp_all add: r1)
  have o1:
    "\<And>a. a < length (nodes t) \<Longrightarrow> a \<noteq> g \<Longrightarrow> a \<noteq> p \<Longrightarrow> parent_of (rightRotate t g) a = (if right_of t p = Some a then Some g else parent_of t a)"
    "\<And>a. a < length (nodes t) \<Longrightarrow> a \<noteq> g \<Longrightarrow> a \<noteq> p \<Longrightarrow> left_of (rightRotate t g) a = (if parent_of t g = Some a \<and> right_of t a \<noteq> Some g then Some p else left_of t a)"
    "\<And>a. a < length (nodes t) \<Longrightarrow> a \<noteq> g \<Longrightarrow> a \<noteq> p \<Longrightarrow> right_of (rightRotate t g) a = (if parent_of t g = Some a \<and> right_of t a = Some g then Some p else right_of t a)"
    using v d lg lp cx cp pg pp by (simp_all add: r1)
  have x1: "left_of ?t1 x = left_of t x" "right_of ?t1 x = right_of t x" "parent_of ?t1 x = (if right_of t p = Some x then Some g else Some p)"
    using v d pg pp px cx cp lg lp o1(1) [of x] o1(2) [of x] o1(3) [of x] by auto
  have pre2:
    "p < length (nodes ?t1)"
    "x < length (nodes ?t1)"
    "p \<noteq> x"
    "left_of ?t1 p = Some x"
    "right_of ?t1 x \<noteq> Some p"
    "parent_of ?t1 p \<noteq> Some p"
    "parent_of ?t1 p \<noteq> Some x"
    using v d e1 x1 lg lp cx cp pg pp px by auto
  note f2 = rightRotate_effect [OF pre2]
  show "lifted t (rightRotate (rightRotate t g) p) x p g"
    unfolding lifted_def
    using v d px pp pg cx cp lg lp
    by (simp add: f2 e1 x1 o1)
  show "left_of (rightRotate (rightRotate t g) p) x = left_of t x"
    using v d cx cp pg lg lp by (simp add: f2 e1 x1 o1)
  show "right_of (rightRotate (rightRotate t g) p) x = Some p"
    using v d cx cp pg lg lp by (simp add: f2 e1 x1 o1)
  show "parent_of (rightRotate (rightRotate t g) p) c = parent_of t c"
    if "left_of t x = Some c" "c < length (nodes t)" "right_of t x \<noteq> Some c"
      "left_of t p \<noteq> Some c" "right_of t p \<noteq> Some c" for c
  proof -
    from that cx have c: "c \<noteq> x" "c \<noteq> p" "c \<noteq> g" by auto
    show ?thesis using that c v d cx cp pg pp px lg lp by (simp add: f2 e1 x1 o1)
  qed
  show "left_of (rightRotate (rightRotate t g) p) q = Some x \<and> right_of (rightRotate (rightRotate t g) p) q = right_of t q"
    if "parent_of t g = Some q" "q < length (nodes t)" "left_of t q = Some g"
      "right_of t q \<notin> {Some x, Some p, Some g}" for q
  proof -
    from that pg have q: "q \<noteq> x" "q \<noteq> p" "q \<noteq> g" by auto
    show ?thesis using that q v d cx cp pg pp px lg lp by (simp add: f2 e1 x1 o1)
  qed
  show "right_of (rightRotate (rightRotate t g) p) q = Some x \<and> left_of (rightRotate (rightRotate t g) p) q = left_of t q"
    if "parent_of t g = Some q" "q < length (nodes t)" "right_of t q = Some g"
      "left_of t q \<notin> {Some x, Some p, Some g}" for q
  proof -
    from that pg have q: "q \<noteq> x" "q \<noteq> p" "q \<noteq> g" by auto
    show ?thesis using that q v d cx cp pg pp px lg lp by (simp add: f2 e1 x1 o1)
  qed
qed

lemma double_LR:
  assumes v: "x < length (nodes t)" "p < length (nodes t)" "g < length (nodes t)"
    and d: "x \<noteq> p" "x \<noteq> g" "p \<noteq> g"
    and px: "parent_of t x = Some p" and pp: "parent_of t p = Some g"
    and pg: "parent_of t g \<notin> {Some x, Some p, Some g}"
    and cx: "left_of t x \<notin> {Some x, Some p, Some g}" "right_of t x \<notin> {Some x, Some p, Some g}"
    and cp: "left_of t p \<notin> {Some p, Some g}" "right_of t p \<notin> {Some p, Some g}"
    and lg: "left_of t g = Some p" and rp: "right_of t p = Some x"
  shows "lifted t (rightRotate (leftRotate t p) g) x p g"
    and "left_of (rightRotate (leftRotate t p) g) x = Some p"
    and "right_of (rightRotate (leftRotate t p) g) x = Some g"
    and "parent_of (rightRotate (leftRotate t p) g) p = Some x"
    and "right_of (rightRotate (leftRotate t p) g) p = left_of t x"
    and "left_of (rightRotate (leftRotate t p) g) p = left_of t p"
    and "\<And>c. left_of t x = Some c \<Longrightarrow> c < length (nodes t) \<Longrightarrow>
          right_of t x \<noteq> Some c \<Longrightarrow> left_of t p \<noteq> Some c \<Longrightarrow> right_of t p \<noteq> Some c \<Longrightarrow>
          parent_of (rightRotate (leftRotate t p) g) c = Some p"
    and "\<And>q. parent_of t g = Some q \<Longrightarrow> q < length (nodes t) \<Longrightarrow> left_of t q = Some g \<Longrightarrow>
          right_of t q \<notin> {Some x, Some p, Some g} \<Longrightarrow>
          left_of (rightRotate (leftRotate t p) g) q = Some x \<and> right_of (rightRotate (leftRotate t p) g) q = right_of t q"
    and "\<And>q. parent_of t g = Some q \<Longrightarrow> q < length (nodes t) \<Longrightarrow> right_of t q = Some g \<Longrightarrow>
          left_of t q \<notin> {Some x, Some p, Some g} \<Longrightarrow>
          right_of (rightRotate (leftRotate t p) g) q = Some x \<and> left_of (rightRotate (leftRotate t p) g) q = left_of t q"
proof -
  let ?t1 = "leftRotate t p"
  note r1 = leftRotate_effect [of p t x]
  have e1:
    "length (nodes (leftRotate t p)) = length (nodes t)"
    "root (leftRotate t p) = (if parent_of t p = None then Some x else root t)"
    "parent_of (leftRotate t p) x = parent_of t p"
    "left_of (leftRotate t p) x = Some p"
    "right_of (leftRotate t p) x = right_of t x"
    "parent_of (leftRotate t p) p = Some x"
    "right_of (leftRotate t p) p = left_of t x"
    "left_of (leftRotate t p) p = left_of t p"
    using v d lg rp cx cp pg pp by (simp_all add: r1)
  have o1:
    "\<And>a. a < length (nodes t) \<Longrightarrow> a \<noteq> p \<Longrightarrow> a \<noteq> x \<Longrightarrow> parent_of (leftRotate t p) a = (if left_of t x = Some a then Some p else parent_of t a)"
    "\<And>a. a < length (nodes t) \<Longrightarrow> a \<noteq> p \<Longrightarrow> a \<noteq> x \<Longrightarrow> left_of (leftRotate t p) a = (if parent_of t p = Some a \<and> left_of t a = Some p then Some x else left_of t a)"
    "\<And>a. a < length (nodes t) \<Longrightarrow> a \<noteq> p \<Longrightarrow> a \<noteq> x \<Longrightarrow> right_of (leftRotate t p) a = (if parent_of t p = Some a \<and> left_of t a \<noteq> Some p then Some x else right_of t a)"
    using v d lg rp cx cp pg pp by (simp_all add: r1)
  have x1: "left_of ?t1 g = Some x" "right_of ?t1 g = right_of t g" "parent_of ?t1 g = parent_of t g"
    using v d pg pp px cx cp lg rp o1(1) [of g] o1(2) [of g] o1(3) [of g] by auto
  have pre2:
    "g < length (nodes ?t1)"
    "x < length (nodes ?t1)"
    "g \<noteq> x"
    "left_of ?t1 g = Some x"
    "right_of ?t1 x \<noteq> Some g"
    "parent_of ?t1 g \<noteq> Some g"
    "parent_of ?t1 g \<noteq> Some x"
    using v d e1 x1 lg rp cx cp pg pp px by auto
  note f2 = rightRotate_effect [OF pre2]
  show "lifted t (rightRotate (leftRotate t p) g) x p g"
    unfolding lifted_def
    using v d px pp pg cx cp lg rp
    by (simp add: f2 e1 x1 o1)
  show "left_of (rightRotate (leftRotate t p) g) x = Some p"
    using v d cx cp pg lg rp by (simp add: f2 e1 x1 o1)
  show "right_of (rightRotate (leftRotate t p) g) x = Some g"
    using v d cx cp pg lg rp by (simp add: f2 e1 x1 o1)
  show "parent_of (rightRotate (leftRotate t p) g) p = Some x"
    using v d cx cp pg lg rp by (simp add: f2 e1 x1 o1)
  show "right_of (rightRotate (leftRotate t p) g) p = left_of t x"
    using v d cx cp pg lg rp by (simp add: f2 e1 x1 o1)
  show "left_of (rightRotate (leftRotate t p) g) p = left_of t p"
    using v d cx cp pg lg rp by (simp add: f2 e1 x1 o1)
  show "parent_of (rightRotate (leftRotate t p) g) c = Some p"
    if "left_of t x = Some c" "c < length (nodes t)" "right_of t x \<noteq> Some c"
      "left_of t p \<noteq> Some c" "right_of t p \<noteq> Some c" for c
  proof -
    from that cx have c: "c \<noteq> x" "c \<noteq> p" "c \<noteq> g" by auto
    show ?thesis using that c v d cx cp pg pp px lg rp by (simp add: f2 e1 x1 o1)
  qed
  show "left_of (rightRotate (leftRotate t p) g) q = Some x \<and> right_of (rightRotate (leftRotate t p) g) q = right_of t q"
    if "parent_of t g = Some q" "q < length (nodes t)" "left_of t q = Some g"
      "right_of t q \<notin> {Some x, Some p, Some g}" for q
  proof -
    from that pg have q: "q \<noteq> x" "q \<noteq> p" "q \<noteq> g" by auto
    show ?thesis using that q v d cx cp pg pp px lg rp by (simp add: f2 e1 x1 o1)
  qed
  show "right_of (rightRotate (leftRotate t p) g) q = Some x \<and> left_of (rightRotate (leftRotate t p) g) q = left_of t q"
    if "parent_of t g = Some q" "q < length (nodes t)" "right_of t q = Some g"
      "left_of t q \<notin> {Some x, Some p, Some g}" for q
  proof -
    from that pg have q: "q \<noteq> x" "q \<noteq> p" "q \<noteq> g" by auto
    show ?thesis using that q v d cx cp pg pp px lg rp by (simp add: f2 e1 x1 o1)
  qed
qed

lemma double_LL:
  assumes v: "x < length (nodes t)" "p < length (nodes t)" "g < length (nodes t)"
    and d: "x \<noteq> p" "x \<noteq> g" "p \<noteq> g"
    and px: "parent_of t x = Some p" and pp: "parent_of t p = Some g"
    and pg: "parent_of t g \<notin> {Some x, Some p, Some g}"
    and cx: "left_of t x \<notin> {Some x, Some p, Some g}" "right_of t x \<notin> {Some x, Some p, Some g}"
    and cp: "left_of t p \<notin> {Some p, Some g}" "right_of t p \<notin> {Some p, Some g}"
    and rg: "right_of t g = Some p" and rp: "right_of t p = Some x"
  shows "lifted t (leftRotate (leftRotate t g) p) x p g"
    and "left_of (leftRotate (leftRotate t g) p) x = Some p"
    and "right_of (leftRotate (leftRotate t g) p) x = right_of t x"
    and "parent_of (leftRotate (leftRotate t g) p) p = Some x"
    and "right_of (leftRotate (leftRotate t g) p) p = left_of t x"
    and "left_of (leftRotate (leftRotate t g) p) p = Some g"
    and "\<And>c. left_of t x = Some c \<Longrightarrow> c < length (nodes t) \<Longrightarrow>
          right_of t x \<noteq> Some c \<Longrightarrow> left_of t p \<noteq> Some c \<Longrightarrow> right_of t p \<noteq> Some c \<Longrightarrow>
          parent_of (leftRotate (leftRotate t g) p) c = Some p"
    and "\<And>q. parent_of t g = Some q \<Longrightarrow> q < length (nodes t) \<Longrightarrow> left_of t q = Some g \<Longrightarrow>
          right_of t q \<notin> {Some x, Some p, Some g} \<Longrightarrow>
          left_of (leftRotate (leftRotate t g) p) q = Some x \<and> right_of (leftRotate (leftRotate t g) p) q = right_of t q"
    and "\<And>q. parent_of t g = Some q \<Longrightarrow> q < length (nodes t) \<Longrightarrow> right_of t q = Some g \<Longrightarrow>
          left_of t q \<notin> {Some x, Some p, Some g} \<Longrightarrow>
          right_of (leftRotate (leftRotate t g) p) q = Some x \<and> left_of (leftRotate (leftRotate t g) p) q = left_of t q"
proof -
  let ?t1 = "leftRotate t g"
  note r1 = leftRotate_effect [of g t p]
  have e1:
    "length (nodes (leftRotate t g)) = length (nodes t)"
    "root (leftRotate t g) = (if parent_of t g = None then Some p else root t)"
    "parent_of (leftRotate t g) p = parent_of t g"
    "left_of (leftRotate t g) p = Some g"
    "right_of (leftRotate t g) p = right_of t p"
    "parent_of (leftRotate t g) g = Some p"
    "right_of (leftRotate t g) g = left_of t p"
    "left_of (leftRotate t g) g = left_of t g"
    using v d rg rp cx cp pg pp by (simp_all add: r1)
  have o1:
    "\<And>a. a < length (nodes t) \<Longrightarrow> a \<noteq> g \<Longrightarrow> a \<noteq> p \<Longrightarrow> parent_of (leftRotate t g) a = (if left_of t p = Some a then Some g else parent_of t a)"
    "\<And>a. a < length (nodes t) \<Longrightarrow> a \<noteq> g \<Longrightarrow> a \<noteq> p \<Longrightarrow> left_of (leftRotate t g) a = (if parent_of t g = Some a \<and> left_of t a = Some g then Some p else left_of t a)"
    "\<And>a. a < length (nodes t) \<Longrightarrow> a \<noteq> g \<Longrightarrow> a \<noteq> p \<Longrightarrow> right_of (leftRotate t g) a = (if parent_of t g = Some a \<and> left_of t a \<noteq> Some g then Some p else right_of t a)"
    using v d rg rp cx cp pg pp by (simp_all add: r1)
  have x1: "left_of ?t1 x = left_of t x" "right_of ?t1 x = right_of t x" "parent_of ?t1 x = (if left_of t p = Some x then Some g else Some p)"
    using v d pg pp px cx cp rg rp o1(1) [of x] o1(2) [of x] o1(3) [of x] by auto
  have pre2:
    "p < length (nodes ?t1)"
    "x < length (nodes ?t1)"
    "p \<noteq> x"
    "right_of ?t1 p = Some x"
    "left_of ?t1 x \<noteq> Some p"
    "parent_of ?t1 p \<noteq> Some p"
    "parent_of ?t1 p \<noteq> Some x"
    using v d e1 x1 rg rp cx cp pg pp px by auto
  note f2 = leftRotate_effect [OF pre2]
  show "lifted t (leftRotate (leftRotate t g) p) x p g"
    unfolding lifted_def
    using v d px pp pg cx cp rg rp
    by (simp add: f2 e1 x1 o1)
  show "left_of (leftRotate (leftRotate t g) p) x = Some p"
    using v d cx cp pg rg rp by (simp add: f2 e1 x1 o1)
  show "right_of (leftRotate (leftRotate t g) p) x = right_of t x"
    using v d cx cp pg rg rp by (simp add: f2 e1 x1 o1)
  show "parent_of (leftRotate (leftRotate t g) p) p = Some x"
    using v d cx cp pg rg rp by (simp add: f2 e1 x1 o1)
  show "right_of (leftRotate (leftRotate t g) p) p = left_of t x"
    using v d cx cp pg rg rp by (simp add: f2 e1 x1 o1)
  show "left_of (leftRotate (leftRotate t g) p) p = Some g"
    using v d cx cp pg rg rp by (simp add: f2 e1 x1 o1)
  show "parent_of (leftRotate (leftRotate t g) p) c = Some p"
    if "left_of t x = Some c" "c < length (nodes t)" "right_of t x \<noteq> Some c"
      "left_of t p \<noteq> Some c" "right_of t p \<noteq> Some c" for c
  proof -
    from that cx have c: "c \<noteq> x" "c \<noteq> p" "c \<noteq> g" by auto
    show ?thesis using that c v d cx cp pg pp px rg rp by (simp add: f2 e1 x1 o1)
  qed
  show "left_of (leftRotate (leftRotate t g) p) q = Some x \<and> right_of (leftRotate (leftRotate t g) p) q = right_of t q"
    if "parent_of t g = Some q" "q < length (nodes t)" "left_of t q = Some g"
      "right_of t q \<notin> {Some x, Some p, Some g}" for q
  proof -
    from that pg have q: "q \<noteq> x" "q \<noteq> p" "q \<noteq> g" by auto
    show ?thesis using that q v d cx cp pg pp px rg rp by (simp add: f2 e1 x1 o1)
  qed
  show "right_of (leftRotate (leftRotate t g) p) q = Some x \<and> left_of (leftRotate (leftRotate t g) p) q = left_of t q"
    if "parent_of t g = Some q" "q < length (nodes t)" "right_of t q = Some g"
      "left_of t q \<notin> {Some x, Some p, Some g}" for q
  proof -
    from that pg have q: "q \<noteq> x" "q \<noteq> p" "q \<noteq> g" by auto
    show ?thesis using that q v d cx cp pg pp px rg rp by (simp add: f2 e1 x1 o1)
  qed
qed

lemma double_RL:
  assumes v: "x < length (nodes t)" "p < length (nodes t)" "g < length (nodes t)"
    and d: "x \<noteq> p" "x \<noteq> g" "p \<noteq> g"
    and px: "parent_of t x = Some p" and pp: "parent_of t p = Some g"
    and pg: "parent_of t g \<notin> {Some x, Some p, Some g}"
    and cx: "left_of t x \<notin> {Some x, Some p, Some g}" "right_of t x \<notin> {Some x, Some p, Some g}"
    and cp: "left_of t p \<notin> {Some p, Some g}" "right_of t p \<notin> {Some p, Some g}"
    and rg: "right_of t g = Some p" and lp: "left_of t p = Some x"
  shows "lifted t (leftRotate (rightRotate t p) g) x p g"
    and "left_of (leftRotate (rightRotate t p) g) x = Some g"
    and "right_of (leftRotate (rightRotate t p) g) x = Some p"
    and "parent_of (leftRotate (rightRotate t p) g) g = Some x"
    and "right_of (leftRotate (rightRotate t p) g) g = left_of t x"
    and "left_of (leftRotate (rightRotate t p) g) g = left_of t g"
    and "\<And>c. left_of t x = Some c \<Longrightarrow> c < length (nodes t) \<Longrightarrow>
          right_of t x \<noteq> Some c \<Longrightarrow> left_of t p \<noteq> Some c \<Longrightarrow> right_of t p \<noteq> Some c \<Longrightarrow>
          parent_of (leftRotate (rightRotate t p) g) c = Some g"
    and "\<And>q. parent_of t g = Some q \<Longrightarrow> q < length (nodes t) \<Longrightarrow> left_of t q = Some g \<Longrightarrow>
          right_of t q \<notin> {Some x, Some p, Some g} \<Longrightarrow>
          left_of (leftRotate (rightRotate t p) g) q = Some x \<and> right_of (leftRotate (rightRotate t p) g) q = right_of t q"
    and "\<And>q. parent_of t g = Some q \<Longrightarrow> q < length (nodes t) \<Longrightarrow> right_of t q = Some g \<Longrightarrow>
          left_of t q \<notin> {Some x, Some p, Some g} \<Longrightarrow>
          right_of (leftRotate (rightRotate t p) g) q = Some x \<and> left_of (leftRotate (rightRotate t p) g) q = left_of t q"
proof -
  let ?t1 = "rightRotate t p"
  note r1 = rightRotate_effect [of p t x]
  have e1:
    "length (nodes (rightRotate t p)) = length (nodes t)"
    "root (rightRotate t p) = (if parent_of t p = None then Some x else root t)"
    "parent_of (rightRotate t p) x = parent_of t p"
    "right_of (rightRotate t p) x = Some p"
    "left_of (rightRotate t p) x = left_of t x"
    "parent_of (rightRotate t p) p = Some x"
    "left_of (rightRotate t p) p = left_of t x"
    "right_of (rightRotate t p) p = right_of t p"
    using v d rg lp cx cp pg pp by (simp_all add: r1)
  have o1:
    "\<And>a. a < length (nodes t) \<Longrightarrow> a \<noteq> p \<Longrightarrow> a \<noteq> x \<Longrightarrow> parent_of (rightRotate t p) a = (if right_of t x = Some a then Some p else parent_of t a)"
    "\<And>a. a < length (nodes t) \<Longrightarrow> a \<noteq> p \<Longrightarrow> a \<noteq> x \<Longrightarrow> left_of (rightRotate t p) a = (if parent_of t p = Some a \<and> right_of t a \<noteq> Some p then Some x else left_of t a)"
    "\<And>a. a < length (nodes t) \<Longrightarrow> a \<noteq> p \<Longrightarrow> a \<noteq> x \<Longrightarrow> right_of (rightRotate t p) a = (if parent_of t p = Some a \<and> right_of t a = Some p then Some x else right_of t a)"
    using v d rg lp cx cp pg pp by (simp_all add: r1)
  have x1: "left_of ?t1 g = left_of t g" "right_of ?t1 g = Some x" "parent_of ?t1 g = parent_of t g"
    using v d pg pp px cx cp rg lp o1(1) [of g] o1(2) [of g] o1(3) [of g] by auto
  have pre2:
    "g < length (nodes ?t1)"
    "x < length (nodes ?t1)"
    "g \<noteq> x"
    "right_of ?t1 g = Some x"
    "left_of ?t1 x \<noteq> Some g"
    "parent_of ?t1 g \<noteq> Some g"
    "parent_of ?t1 g \<noteq> Some x"
    using v d e1 x1 rg lp cx cp pg pp px by auto
  note f2 = leftRotate_effect [OF pre2]
  show "lifted t (leftRotate (rightRotate t p) g) x p g"
    unfolding lifted_def
    using v d px pp pg cx cp rg lp
    by (simp add: f2 e1 x1 o1)
  show "left_of (leftRotate (rightRotate t p) g) x = Some g"
    using v d cx cp pg rg lp by (simp add: f2 e1 x1 o1)
  show "right_of (leftRotate (rightRotate t p) g) x = Some p"
    using v d cx cp pg rg lp by (simp add: f2 e1 x1 o1)
  show "parent_of (leftRotate (rightRotate t p) g) g = Some x"
    using v d cx cp pg rg lp by (simp add: f2 e1 x1 o1)
  show "right_of (leftRotate (rightRotate t p) g) g = left_of t x"
    using v d cx cp pg rg lp by (simp add: f2 e1 x1 o1)
  show "left_of (leftRotate (rightRotate t p) g) g = left_of t g"
    using v d cx cp pg rg lp by (simp add: f2 e1 x1 o1)
  show "parent_of (leftRotate (rightRotate t p) g) c = Some g"
    if "left_of t x = Some c" "c < length (nodes t)" "right_of t x \<noteq> Some c"
      "left_of t p \<noteq> Some c" "right_of t p \<noteq> Some c" for c
  proof -
    from that cx have c: "c \<noteq> x" "c \<noteq> p" "c \<noteq> g" by auto
    show ?thesis using that c v d cx cp pg pp px rg lp by (simp add: f2 e1 x1 o1)
  qed
  show "left_of (leftRotate (rightRotate t p) g) q = Some x \<and> right_of (leftRotate (rightRotate t p) g) q = right_of t q"
    if "parent_of t g = Some q" "q < length (nodes t)" "left_of t q = Some g"
      "right_of t q \<notin> {Some x, Some p, Some g}" for q
  proof -
    from that pg have q: "q \<noteq> x" "q \<noteq> p" "q \<noteq> g" by auto
    show ?thesis using that q v d cx cp pg pp px rg lp by (simp add: f2 e1 x1 o1)
  qed
  show "right_of (leftRotate (rightRotate t p) g) q = Some x \<and> left_of (leftRotate (rightRotate t p) g) q = left_of t q"
    if "parent_of t g = Some q" "q < length (nodes t)" "right_of t q = Some g"
      "left_of t q \<notin> {Some x, Some p, Some g}" for q
  proof -
    from that pg have q: "q \<noteq> x" "q \<noteq> p" "q \<noteq> g" by auto
    show ?thesis using that q v d cx cp pg pp px rg lp by (simp add: f2 e1 x1 o1)
  qed
qed

lemma lifted_top:
  assumes "lifted t t' x p g"
  shows "length (nodes t') = length (nodes t)"
    and "root t' = (if parent_of t g = None then Some x else root t)"
    and "parent_of t' x = parent_of t g"
    and "left_of t' x \<in> {left_of t x, right_of t x, Some p, Some g}"
    and "right_of t' x \<in> {left_of t x, right_of t x, Some p, Some g}"
  using assms unfolding lifted_def by blast+

lemma lifted_other:
  assumes "lifted t t' x p g" and "a < length (nodes t)" and "a \<noteq> x" "a \<noteq> p" "a \<noteq> g"
  shows "parent_of t' a \<noteq> parent_of t a \<Longrightarrow>
           Some a \<in> {left_of t x, right_of t x, left_of t p, right_of t p}"
    and "parent_of t g \<noteq> Some a \<Longrightarrow> left_of t' a = left_of t a \<and> right_of t' a = right_of t a"
    and "parent_of t g = Some a \<Longrightarrow>
           left_of t' a \<in> {left_of t a, Some p, Some x} \<and>
           right_of t' a \<in> {right_of t a, Some p, Some x} \<and>
           (left_of t' a = Some x \<or> right_of t' a = Some x)"
  using assms unfolding lifted_def by blast+

section \<open>The path to the root under an iteration of splay\<close>

lemma upchain_frame:
  "\<forall>a\<in>set (y # as). parent_of t' a = parent_of t a \<Longrightarrow>
   \<forall>a\<in>set as. left_of t' a = left_of t a \<and> right_of t' a = right_of t a \<Longrightarrow>
   upchain t' tp y as = upchain t tp y as"
  by (induction as arbitrary: y) auto

lemma noup_frame:
  "\<forall>a\<in>set ys. left_of t' a = left_of t a \<and> right_of t' a = right_of t a \<Longrightarrow>
   noup t' ys = noup t ys"
  by (induction ys) auto

lemma spine_lifted:
  assumes sp: "spine t x (p # g # rest)" and li: "lifted t t' x p g"
  shows "spine t' x rest"
proof -
  from sp have dist: "distinct (x # p # g # rest)"
    and val: "\<forall>a\<in>set (x # p # g # rest). a < length (nodes t)"
    and upg: "upchain t None g rest"
    and nx: "\<forall>a\<in>set (x # p # g # rest). left_of t x \<noteq> Some a \<and> right_of t x \<noteq> Some a"
    and np: "\<forall>a\<in>set (p # g # rest). left_of t p \<noteq> Some a \<and> right_of t p \<noteq> Some a"
    and ng: "noup t (g # rest)"
    and rt: "root t = Some (last (g # rest))"
    unfolding spine_def by simp_all
  note top = lifted_top [OF li]
  have xg: "x \<noteq> p" "x \<noteq> g" "p \<noteq> g" using dist by auto
  have cx: "left_of t' x \<noteq> Some a \<and> right_of t' x \<noteq> Some a" if "a = x \<or> a \<in> set rest" for a
  proof -
    from that dist have "a \<noteq> p" "a \<noteq> g" by auto
    moreover from that nx have "left_of t x \<noteq> Some a" "right_of t x \<noteq> Some a" by auto
    ultimately show ?thesis using top(4,5) by auto
  qed
  show ?thesis
  proof (cases rest)
    case Nil
    with upg have "parent_of t g = None" by simp
    with top have "root t' = Some x" "parent_of t' x = None" by simp_all
    moreover have "x < length (nodes t')" using val top(1) by simp
    ultimately show ?thesis using cx Nil unfolding spine_def by simp
  next
    case (Cons q rest')
    from upg Cons have pgq: "parent_of t g = Some q" and upq: "upchain t None q rest'" by simp_all
    from ng Cons have nq: "\<forall>a\<in>set (q # rest'). left_of t q \<noteq> Some a \<and> right_of t q \<noteq> Some a"
      and nr: "noup t rest'" by simp_all
    have inrest: "a < length (nodes t) \<and> a \<noteq> x \<and> a \<noteq> p \<and> a \<noteq> g" if "a \<in> set rest" for a
      using that dist val by auto
    have same: "parent_of t' a = parent_of t a" if "a \<in> set rest" for a
    proof (rule ccontr)
      assume "parent_of t' a \<noteq> parent_of t a"
      with lifted_other(1) [OF li, of a] inrest [OF that]
      have "Some a \<in> {left_of t x, right_of t x, left_of t p, right_of t p}" by blast
      moreover from that nx np
      have "left_of t x \<noteq> Some a" "right_of t x \<noteq> Some a"
        "left_of t p \<noteq> Some a" "right_of t p \<noteq> Some a" by auto
      ultimately show False by auto
    qed
    have same2: "left_of t' a = left_of t a \<and> right_of t' a = right_of t a"
      if "a \<in> set rest'" for a
    proof -
      from that Cons dist have "a \<noteq> q" "a \<in> set rest" by auto
      with pgq have "parent_of t g \<noteq> Some a" by simp
      with lifted_other(2) [OF li, of a] inrest [OF \<open>a \<in> set rest\<close>] show ?thesis by blast
    qed
    have "q \<in> set rest" using Cons by simp
    from lifted_other(3) [OF li, of q] inrest [OF this] pgq
    have lq: "left_of t' q \<in> {left_of t q, Some p, Some x}"
      and rq: "right_of t' q \<in> {right_of t q, Some p, Some x}"
      and xq: "left_of t' q = Some x \<or> right_of t' q = Some x"
      by blast+
    have cq: "left_of t' q \<noteq> Some a \<and> right_of t' q \<noteq> Some a" if "a \<in> set (q # rest')" for a
    proof -
      from that Cons dist have "a \<noteq> p" "a \<noteq> x" by auto
      moreover from that nq have "left_of t q \<noteq> Some a" "right_of t q \<noteq> Some a" by auto
      ultimately show ?thesis using lq rq by auto
    qed
    have up': "upchain t' None q rest'"
      using upchain_frame [of q rest' t' t None] same same2 upq Cons by simp
    have nr': "noup t' rest'"
      using noup_frame [of rest' t' t] same2 nr by simp
    have 1: "distinct (x # q # rest')" using dist Cons by auto
    have 2: "\<forall>a\<in>set (x # q # rest'). a < length (nodes t')" using val top(1) Cons by auto
    have 3: "upchain t' None x (q # rest')" using top(3) pgq xq up' by simp
    have 4: "noup t' (x # q # rest')"
      using cx cq nr' Cons by simp
    have 5: "root t' = Some (last (x # q # rest'))" using top(2) pgq rt Cons by simp
    show ?thesis unfolding spine_def Cons using 1 2 3 4 5 by blast
  qed
qed

lemma at_depth_unique: "at_depth t a k \<Longrightarrow> at_depth t a k' \<Longrightarrow> k = k'"
proof (induction arbitrary: k' rule: at_depth.induct)
  case (at_root a)
  from at_root.prems at_root.hyps show ?case by (cases rule: at_depth.cases) auto
next
  case (at_child a p k)
  from at_child.prems at_child.hyps(1) obtain j where "k' = Suc j" "at_depth t p j"
    by (cases rule: at_depth.cases) auto
  with at_child.IH show ?case by simp
qed

lemma upchain_depth:
  "upchain t None x as \<Longrightarrow> root t = Some (last (x # as)) \<Longrightarrow> at_depth t x (length as)"
  by (induction as arbitrary: x) (auto intro: at_depth.intros)

lemma spine_depth: "spine t x as \<Longrightarrow> at_depth t x (length as)"
  by (simp add: spine_def upchain_depth)

lemma spine_root_iff: "spine t x as \<Longrightarrow> root t = Some x \<longleftrightarrow> as = []"
  by (cases as rule: rev_cases) (auto simp: spine_def)

lemma spine_zig_test:
  assumes "spine t x as" and "as \<noteq> []"
  shows "parent_of t x = Some (last as) \<longleftrightarrow> length as = 1"
proof (cases as)
  case Nil
  with assms show ?thesis by simp
next
  case (Cons p as')
  show ?thesis
  proof (cases as')
    case Nil
    with Cons assms show ?thesis by (simp add: spine_def)
  next
    case (Cons g rest)
    have "last (g # rest) \<in> set (g # rest)" by (rule last_in_set) simp
    with Cons \<open>as = p # as'\<close> assms show ?thesis by (auto simp: spine_def)
  qed
qed

lemma spine_zig:
  assumes sp: "spine t x [p]"
  shows "spine (splay_step p x t) x []"
proof -
  from sp have v: "x < length (nodes t)" "p < length (nodes t)" and d: "x \<noteq> p"
    and px: "parent_of t x = Some p" and pp: "parent_of t p = None"
    and ch: "left_of t p = Some x \<or> right_of t p = Some x"
    and cx: "left_of t x \<noteq> Some x" "right_of t x \<noteq> Some x"
            "left_of t x \<noteq> Some p" "right_of t x \<noteq> Some p"
    unfolding spine_def by auto
  show ?thesis
  proof (cases "Some x = left_of t p")
    case True
    then have st: "splay_step p x t = rightRotate t p" using px by (simp add: splay_step_def)
    have pre: "p < length (nodes t)" "x < length (nodes t)" "p \<noteq> x"
      "left_of t p = Some x" "right_of t x \<noteq> Some p"
      "parent_of t p \<noteq> Some p" "parent_of t p \<noteq> Some x"
      using v d True cx pp by auto
    note e = rightRotate_effect [OF pre]
    show ?thesis unfolding spine_def st using e(1,2,3,4,5) v pp cx d by simp
  next
    case False
    with ch have rp: "right_of t p = Some x" by auto
    from False have st: "splay_step p x t = leftRotate t p" using px by (simp add: splay_step_def)
    have pre: "p < length (nodes t)" "x < length (nodes t)" "p \<noteq> x"
      "right_of t p = Some x" "left_of t x \<noteq> Some p"
      "parent_of t p \<noteq> Some p" "parent_of t p \<noteq> Some x"
      using v d rp cx pp by auto
    note e = leftRotate_effect [OF pre]
    show ?thesis unfolding spine_def st using e(1,2,3,4,5) v pp cx d by simp
  qed
qed

lemma splay_step_double:
  "parent_of t x = Some p \<Longrightarrow> parent_of t p = Some g \<Longrightarrow> p \<noteq> r \<Longrightarrow>
   splay_step r x t =
     (if left_of t g = Some p then
        (if left_of t p = Some x then rightRotate (rightRotate t g) p
         else rightRotate (leftRotate t p) g)
      else if right_of t g = Some p then
        (if right_of t p = Some x then leftRotate (leftRotate t g) p
         else leftRotate (rightRotate t p) g)
      else t)"
  by (auto simp: splay_step_def)

lemma spine_double:
  assumes sp: "spine t x (p # g # rest)"
  shows "spine (splay_step (last (g # rest)) x t) x rest"
proof -
  from sp have dist: "distinct (x # p # g # rest)"
    and v: "x < length (nodes t)" "p < length (nodes t)" "g < length (nodes t)"
    and px: "parent_of t x = Some p" and pp: "parent_of t p = Some g"
    and chp: "left_of t p = Some x \<or> right_of t p = Some x"
    and chg: "left_of t g = Some p \<or> right_of t g = Some p"
    and upg: "upchain t None g rest"
    and nx: "\<forall>a\<in>set (x # p # g # rest). left_of t x \<noteq> Some a \<and> right_of t x \<noteq> Some a"
    and np: "\<forall>a\<in>set (p # g # rest). left_of t p \<noteq> Some a \<and> right_of t p \<noteq> Some a"
    unfolding spine_def by simp_all
  have d: "x \<noteq> p" "x \<noteq> g" "p \<noteq> g" using dist by auto
  have "last (g # rest) \<in> set (g # rest)" by (rule last_in_set) simp
  with dist have nr: "p \<noteq> last (g # rest)" by auto
  have pg: "parent_of t g \<notin> {Some x, Some p, Some g}"
  proof (cases rest)
    case Nil
    with upg show ?thesis by simp
  next
    case (Cons q rest')
    with upg have "parent_of t g = Some q" by simp
    with dist Cons show ?thesis by auto
  qed
  have cx: "left_of t x \<notin> {Some x, Some p, Some g}" "right_of t x \<notin> {Some x, Some p, Some g}"
    using nx by auto
  have cp: "left_of t p \<notin> {Some p, Some g}" "right_of t p \<notin> {Some p, Some g}"
    using np by auto
  note base = v d px pp pg cx cp
  have "lifted t (splay_step r x t) x p g" if nr: "p \<noteq> r" for r
  proof (cases "left_of t g = Some p")
    case lg: True
    show ?thesis
    proof (cases "left_of t p = Some x")
      case True
      have "lifted t (rightRotate (rightRotate t g) p) x p g"
        by (rule double_RR(1) [OF base lg True])
      then show ?thesis
        by (simp add: splay_step_double [OF px pp nr] lg True)
    next
      case False
      with chp have rp: "right_of t p = Some x" by auto
      have "lifted t (rightRotate (leftRotate t p) g) x p g"
        by (rule double_LR(1) [OF base lg rp])
      then show ?thesis
        by (simp add: splay_step_double [OF px pp nr] lg False)
    qed
  next
    case nlg: False
    with chg have rg: "right_of t g = Some p" by auto
    show ?thesis
    proof (cases "right_of t p = Some x")
      case True
      have "lifted t (leftRotate (leftRotate t g) p) x p g"
        by (rule double_LL(1) [OF base rg True])
      then show ?thesis
        by (simp add: splay_step_double [OF px pp nr] nlg rg True)
    next
      case False
      with chp have lp: "left_of t p = Some x" by auto
      have "lifted t (leftRotate (rightRotate t p) g) x p g"
        by (rule double_RL(1) [OF base rg lp])
      then show ?thesis
        by (simp add: splay_step_double [OF px pp nr] nlg rg False)
    qed
  qed
  from this [OF nr] have "lifted t (splay_step (last (g # rest)) x t) x p g" .
  with sp show ?thesis by (rule spine_lifted)
qed

lemma spine_step:
  assumes "spine t x as" and "as \<noteq> []"
  shows "spine (splay_step (last as) x t) x (drop 2 as)"
proof (cases as)
  case Nil
  with assms show ?thesis by simp
next
  case (Cons p as')
  show ?thesis
  proof (cases as')
    case Nil
    with Cons assms spine_zig [of t x p] show ?thesis by simp
  next
    case (Cons g rest)
    with \<open>as = p # as'\<close> assms spine_double [of t x p g rest] show ?thesis by simp
  qed
qed

lemma spine_done:
  assumes "spine t x []"
  shows "splay_step r x t = t"
  using assms by (simp add: spine_def splay_step_def)

lemma spine_funpow:
  assumes "spine t x as"
  shows "spine ((splay_step (last (x # as)) x ^^ i) t) x (drop (2 * i) as)"
proof (induction i)
  case 0
  with assms show ?case by simp
next
  case (Suc i)
  let ?ti = "(splay_step (last (x # as)) x ^^ i) t"
  show ?case
  proof (cases "drop (2 * i) as = []")
    case True
    with Suc have "spine ?ti x []" by simp
    from spine_done [OF this] this True show ?thesis by simp
  next
    case False
    then have "as \<noteq> []" by auto
    from False have "last (drop (2 * i) as) = last as" by simp
    with \<open>as \<noteq> []\<close> have "last (drop (2 * i) as) = last (x # as)" by simp
    with spine_step [OF Suc False] show ?thesis by (simp add: add.commute)
  qed
qed

section \<open>The loop of splay\<close>

lemma splay_loop_funpow:
  "root ((splay_step r x ^^ k) t) = Some x \<Longrightarrow>
   \<forall>i<k. root ((splay_step r x ^^ i) t) \<noteq> Some x \<Longrightarrow>
   splay_loop r x t = Some ((splay_step r x ^^ k) t)"
proof (induction k arbitrary: t)
  case 0
  then show ?case by (subst splay_loop.simps) simp
next
  case (Suc k)
  from Suc.prems(2) have nr: "root t \<noteq> Some x" by force
  have "splay_loop r x (splay_step r x t) = Some ((splay_step r x ^^ k) (splay_step r x t))"
  proof (rule Suc.IH)
    show "root ((splay_step r x ^^ k) (splay_step r x t)) = Some x"
      using Suc.prems(1) by (simp add: funpow_swap1)
    show "\<forall>i<k. root ((splay_step r x ^^ i) (splay_step r x t)) \<noteq> Some x"
    proof (intro allI impI)
      fix i assume "i < k"
      then have "Suc i < Suc k" by simp
      with Suc.prems(2) have "root ((splay_step r x ^^ Suc i) t) \<noteq> Some x" by blast
      then show "root ((splay_step r x ^^ i) (splay_step r x t)) \<noteq> Some x"
        by (simp add: funpow_swap1)
    qed
  qed
  then show ?case using nr by (subst splay_loop.simps) (simp add: funpow_swap1)
qed

lemma splay_loop_root:
  "splay_loop r x t = Some t' \<Longrightarrow> root t' = Some x"
  by (erule splay_loop.raw_induct [rotated]) (auto split: if_splits)

lemma splay_root: "splay t x = Some t' \<Longrightarrow> root t \<noteq> None \<Longrightarrow> root t' = Some x"
  by (auto simp: splay_def splay_loop_root split: option.splits)


section \<open>Paths in a well-formed tree\<close>

lemma bst_order_distinct: "bst_order t T \<Longrightarrow> distinct (refs T)"
  by (induction T) fastforce+

lemma tree_at_Tip [simp]: "tree_at t par cur Tip \<longleftrightarrow> cur = None"
  by (cases cur) simp_all

lemma tree_at_Br:
  "tree_at t par cur (Br l b r) \<longleftrightarrow>
     cur = Some b \<and> b < length (nodes t) \<and> parent_of t b = par \<and>
     tree_at t (Some b) (left_of t b) l \<and> tree_at t (Some b) (right_of t b) r"
  by (cases cur) auto

lemma tree_at_valid: "tree_at t par cur T \<Longrightarrow> a \<in> set (refs T) \<Longrightarrow> a < length (nodes t)"
  by (induction T arbitrary: par cur) (auto simp: tree_at_Br)

lemma tree_at_top: "tree_at t par (Some b) T \<Longrightarrow> b \<in> set (refs T)"
  by (cases T) auto

lemma tree_at_closed:
  "tree_at t par cur T \<Longrightarrow> a \<in> set (refs T) \<Longrightarrow>
   (left_of t a = Some c \<longrightarrow> c \<in> set (refs T)) \<and> (right_of t a = Some c \<longrightarrow> c \<in> set (refs T))"
proof (induction T arbitrary: par cur)
  case Tip
  then show ?case by simp
next
  case (Br l b r)
  from Br.prems(1) have tl: "tree_at t (Some b) (left_of t b) l"
    and tr: "tree_at t (Some b) (right_of t b) r" by (simp_all add: tree_at_Br)
  from Br.prems(2) consider "a \<in> set (refs l)" | "a = b" | "a \<in> set (refs r)" by auto
  then show ?case
  proof cases
    case 1
    with Br.IH(1) [OF tl] show ?thesis by auto
  next
    case 2
    with tl tr tree_at_top [of t "Some b" _ l] tree_at_top [of t "Some b" _ r]
    show ?thesis by auto
  next
    case 3
    with Br.IH(2) [OF tr] show ?thesis by auto
  qed
qed

lemma upchain_snoc:
  "upchain t (Some b) x as \<Longrightarrow> parent_of t b = tp \<Longrightarrow>
   left_of t b = Some (last (x # as)) \<or> right_of t b = Some (last (x # as)) \<Longrightarrow>
   upchain t tp x (as @ [b])"
  by (induction as arbitrary: x) auto

lemma noup_snoc:
  "noup t ys \<Longrightarrow> \<forall>y\<in>set ys. left_of t y \<noteq> Some b \<and> right_of t y \<noteq> Some b \<Longrightarrow>
   left_of t b \<noteq> Some b \<and> right_of t b \<noteq> Some b \<Longrightarrow> noup t (ys @ [b])"
  by (induction ys) auto

lemma tree_at_path:
  "tree_at t par cur T \<Longrightarrow> distinct (refs T) \<Longrightarrow> x \<in> set (refs T) \<Longrightarrow>
   \<exists>as. cur = Some (last (x # as)) \<and> set (x # as) \<subseteq> set (refs T) \<and> distinct (x # as) \<and>
        upchain t par x as \<and> noup t (x # as)"
proof (induction T arbitrary: par cur)
  case Tip
  then show ?case by simp
next
  case (Br l b r)
  from Br.prems(1) have cur: "cur = Some b" and pb: "parent_of t b = par"
    and tl: "tree_at t (Some b) (left_of t b) l"
    and tr: "tree_at t (Some b) (right_of t b) r" by (simp_all add: tree_at_Br)
  from Br.prems(2) have dl: "distinct (refs l)" and dr: "distinct (refs r)"
    and bl: "b \<notin> set (refs l)" and br: "b \<notin> set (refs r)" by auto
  have selfb: "left_of t b \<noteq> Some b \<and> right_of t b \<noteq> Some b"
    using tl tr bl br tree_at_top [of t "Some b" b l] tree_at_top [of t "Some b" b r] by auto
  have ext: "\<exists>as. cur = Some (last (x # as)) \<and> set (x # as) \<subseteq> set (refs (Br l b r)) \<and>
        distinct (x # as) \<and> upchain t par x as \<and> noup t (x # as)"
    if sub: "tree_at t (Some b) c s" and xs: "x \<in> set (refs s)" and ds: "distinct (refs s)"
      and bs: "b \<notin> set (refs s)" and ss: "set (refs s) \<subseteq> set (refs (Br l b r))"
      and cb: "left_of t b = c \<or> right_of t b = c"
      and IH: "\<exists>as. c = Some (last (x # as)) \<and> set (x # as) \<subseteq> set (refs s) \<and> distinct (x # as) \<and>
        upchain t (Some b) x as \<and> noup t (x # as)"
    for c s
  proof -
    from IH obtain as where c: "c = Some (last (x # as))" and s: "set (x # as) \<subseteq> set (refs s)"
      and d: "distinct (x # as)" and u: "upchain t (Some b) x as" and n: "noup t (x # as)"
      by blast
    have nb: "\<forall>y\<in>set (x # as). left_of t y \<noteq> Some b \<and> right_of t y \<noteq> Some b"
    proof
      fix y assume "y \<in> set (x # as)"
      with s have "y \<in> set (refs s)" by auto
      from tree_at_closed [OF sub this, of b] bs
      show "left_of t y \<noteq> Some b \<and> right_of t y \<noteq> Some b" by auto
    qed
    have "upchain t par x (as @ [b])"
      using upchain_snoc [OF u pb] cb c by auto
    moreover have "noup t ((x # as) @ [b])"
      by (rule noup_snoc [OF n nb selfb])
    moreover have "distinct (x # as @ [b])" using d s bs by auto
    moreover have "set (x # as @ [b]) \<subseteq> set (refs (Br l b r))" using s ss by auto
    moreover have "cur = Some (last (x # as @ [b]))" using cur by simp
    ultimately show ?thesis by (intro exI [of _ "as @ [b]"]) simp
  qed
  from Br.prems(3) consider "x = b" | "x \<in> set (refs l)" | "x \<in> set (refs r)" by auto
  then show ?case
  proof cases
    case 1
    have "cur = Some (last (x # []))" using cur 1 by simp
    moreover have "upchain t par x []" using pb 1 by simp
    moreover have "noup t (x # [])" using selfb 1 by simp
    ultimately show ?thesis by (intro exI [of _ "[]"]) (simp add: 1)
  next
    case 2
    show ?thesis
      by (rule ext [OF tl 2 dl bl _ _ Br.IH(1) [OF tl dl 2]]) auto
  next
    case 3
    show ?thesis
      by (rule ext [OF tr 3 dr br _ _ Br.IH(2) [OF tr dr 3]]) auto
  qed
qed

lemma wf_tree_spine:
  assumes "wf_tree t T" and "x \<in> set (refs T)"
  shows "\<exists>as. spine t x as"
proof -
  from assms(1) have ta: "tree_at t None (root t) T" and "bst_order t T"
    by (simp_all add: wf_tree_def)
  then have dT: "distinct (refs T)" by (simp add: bst_order_distinct)
  from tree_at_path [OF ta dT assms(2)] obtain as where
    r: "root t = Some (last (x # as))" and s: "set (x # as) \<subseteq> set (refs T)"
    and d: "distinct (x # as)" and u: "upchain t None x as" and n: "noup t (x # as)"
    by blast
  have "\<forall>a\<in>set (x # as). a < length (nodes t)"
    using s tree_at_valid [OF ta] by blast
  with r d u n have "spine t x as" unfolding spine_def by blast
  then show ?thesis ..
qed

section \<open>Search in a well-formed tree\<close>



lemma search_loop_wf:
  "tree_at t par cur T \<Longrightarrow> bst_order t T \<Longrightarrow>
   \<exists>res. search_loop t d cur = Some (res, t) \<and>
     (case res of None \<Rightarrow> d \<notin> data_of t ` set (refs T)
      | Some a \<Rightarrow> a \<in> set (refs T) \<and> data_of t a = d)"
proof (induction T arbitrary: par cur)
  case Tip
  then show ?case by (subst search_loop.simps) simp
next
  case (Br l b r)
  from Br.prems(1) have cur: "cur = Some b"
    and tl: "tree_at t (Some b) (left_of t b) l"
    and tr: "tree_at t (Some b) (right_of t b) r" by (simp_all add: tree_at_Br)
  from Br.prems(2) have ol: "\<forall>a\<in>set (refs l). data_of t a < data_of t b"
    and orr: "\<forall>a\<in>set (refs r). data_of t b < data_of t a"
    and bl: "bst_order t l" and br: "bst_order t r" by simp_all
  consider "data_of t b = d" | "d < data_of t b" | "data_of t b < d" by fastforce
  then show ?case
  proof cases
    case 1
    then have "search_loop t d cur = Some (Some b, t)"
      by (subst search_loop.simps) (simp add: cur)
    with 1 show ?thesis by simp
  next
    case 2
    then have "data_of t b \<noteq> d" by auto
    with 2 have eq: "search_loop t d cur = search_loop t d (left_of t b)"
      by (subst search_loop.simps) (simp add: cur)
    from Br.IH(1) [OF tl bl] obtain res where
      res: "search_loop t d (left_of t b) = Some (res, t)"
      and c: "case res of None \<Rightarrow> d \<notin> data_of t ` set (refs l)
              | Some a \<Rightarrow> a \<in> set (refs l) \<and> data_of t a = d" by blast
    have "case res of None \<Rightarrow> d \<notin> data_of t ` set (refs (Br l b r))
              | Some a \<Rightarrow> a \<in> set (refs (Br l b r)) \<and> data_of t a = d"
      using c 2 orr by (cases res) auto
    with eq res show ?thesis by auto
  next
    case 3
    then have "data_of t b \<noteq> d" "\<not> d < data_of t b" by auto
    then have eq: "search_loop t d cur = search_loop t d (right_of t b)"
      by (subst search_loop.simps) (simp add: cur)
    from Br.IH(2) [OF tr br] obtain res where
      res: "search_loop t d (right_of t b) = Some (res, t)"
      and c: "case res of None \<Rightarrow> d \<notin> data_of t ` set (refs r)
              | Some a \<Rightarrow> a \<in> set (refs r) \<and> data_of t a = d" by blast
    have "case res of None \<Rightarrow> d \<notin> data_of t ` set (refs (Br l b r))
              | Some a \<Rightarrow> a \<in> set (refs (Br l b r)) \<and> data_of t a = d"
      using c 3 ol by (cases res) auto
    with eq res show ?thesis by auto
  qed
qed

text \<open>
  On a well-formed tree \<open>search\<close> returns and leaves the tree as it is: with a node of
  the tree that holds the key when the key is among the keys of the tree, and with
  \<open>null\<close> otherwise.
\<close>

lemma search_wf:
  assumes "wf_tree t T"
  shows "\<exists>res. search t d = Some (res, t) \<and>
         (case res of None \<Rightarrow> d \<notin> data_of t ` set (refs T)
          | Some a \<Rightarrow> a \<in> set (refs T) \<and> data_of t a = d)"
proof -
  from assms have ta: "tree_at t None (root t) T" and bo: "bst_order t T"
    by (simp_all add: wf_tree_def)
  show ?thesis
  proof (cases "root t")
    case None
    with ta have "T = Tip" by (cases T) simp_all
    with None show ?thesis by (simp add: search_def)
  next
    case (Some r)
    with search_loop_wf [OF ta bo, of d] show ?thesis by (simp add: search_def)
  qed
qed

section \<open>The right spine of the left child under splay\<close>








lemma last_opt_simps [simp]:
  "last_opt [] = None"
  "last_opt (xs @ [y]) = Some y"
  "last_opt (xs @ y # ys) = last_opt (y # ys)"
  "last_opt (y # z # ys) = last_opt (z # ys)"
  "last_opt [y] = Some y"
  by (simp_all add: last_opt_def)

lemma last_opt_append: "ys \<noteq> [] \<Longrightarrow> last_opt (xs @ ys) = last_opt ys"
  by (simp add: last_opt_def)










lemma last_opt_None [simp]: "last_opt xs = None \<longleftrightarrow> xs = []"
  by (simp add: last_opt_def)

lemma last_opt_Cons: "last_opt (y # ys) = (if ys = [] then Some y else last_opt ys)"
  by (simp add: last_opt_def)










section \<open>Loops that do not return\<close>

text \<open>
  An iteration of \<open>splay\<close> that leaves the tree as it is, with the node not at the root,
  repeats forever.
\<close>

lemma splay_loop_stuck:
  assumes "root t \<noteq> Some node" and "splay_step r node t = t"
  shows "splay_loop r node t = None"
proof (rule ccontr)
  assume "splay_loop r node t \<noteq> None"
  then obtain y where y: "splay_loop r node t = Some y" by auto
  have "root t \<noteq> Some node \<longrightarrow> splay_step r node t \<noteq> t"
    by (rule splay_loop.raw_induct [OF _ y]) (auto split: if_splits)
  with assms show False by simp
qed

text \<open>
  A set \<open>S\<close> of nodes, none holding \<open>d\<close>, that the descent for \<open>d\<close> never leaves: the
  descent does not return from any of them.
\<close>

lemma search_loop_cycle_aux:
  "search_loop (t :: 'a::linorder splay_tree) d cur = Some y \<Longrightarrow>
   (\<forall>a\<in>S. data_of t a \<noteq> d \<and>
      (if d < data_of t a then left_of t a else right_of t a) \<in> Some ` S) \<longrightarrow>
   cur \<notin> Some ` S"
proof (erule search_loop.raw_induct [rotated], intro impI)
  fix f :: "'a splay_tree \<Rightarrow> 'a \<Rightarrow> ref option \<Rightarrow> (ref option \<times> 'a splay_tree) option"
    and t d cur y
  assume IH: "\<And>t d cur y. f t d cur = Some y \<Longrightarrow>
      (\<forall>a\<in>S. data_of t a \<noteq> d \<and>
        (if d < data_of t a then left_of t a else right_of t a) \<in> Some ` S) \<longrightarrow>
      cur \<notin> Some ` S"
    and body: "(case cur of None \<Rightarrow> Some (None, t)
        | Some a \<Rightarrow> if data_of t a = d then Some (Some a, t)
                    else if d < data_of t a then f t d (left_of t a)
                    else f t d (right_of t a)) = Some y"
    and S: "\<forall>a\<in>S. data_of t a \<noteq> d \<and>
        (if d < data_of t a then left_of t a else right_of t a) \<in> Some ` S"
  show "cur \<notin> Some ` S"
  proof
    assume "cur \<in> Some ` S"
    then obtain a where a: "cur = Some a" "a \<in> S" by auto
    with S have na: "data_of t a \<noteq> d"
      and nx: "(if d < data_of t a then left_of t a else right_of t a) \<in> Some ` S" by auto
    from body a na
    have "f t d (if d < data_of t a then left_of t a else right_of t a) = Some y"
      by (simp split: if_splits)
    from IH [OF this] S nx show False by blast
  qed
qed

lemma search_loop_cycle:
  assumes "\<forall>a\<in>S. data_of t a \<noteq> d \<and>
             (if d < data_of t a then left_of t a else right_of t a) \<in> Some ` S"
    and "a \<in> S"
  shows "search_loop t d (Some a) = None"
proof (cases "search_loop t d (Some a)")
  case (Some y)
  from search_loop_cycle_aux [OF Some, of S] assms show ?thesis by blast
qed simp

section \<open>The claims\<close>

text \<open>
  Claim C1 (ordered traversal after any insert/delete sequence), evaluated on the code:
  after \<open>insert(1); insert(2); insert(3); insert(2)\<close> the traversal \<open>inorder()\<close> returns
  1, 2, 1, 3, which is not ascending and holds the key 1 twice, although the keys
  inserted and not deleted are 1, 2, 3.
\<close>

theorem inorder_after_reinsert:
  "Option.bind (run new_tree [Insert 1, Insert 2, Insert 3, Insert 2]) inorder
     = Some [1, 2, 1, 3 :: int]"
  by code_simp

text \<open>
  Claim C2 (\<open>rightRotate\<close> sets \<open>n.left = l.right\<close>), evaluated on the code: in the
  tree built by inserting 1, 2, 3 the root \<open>n\<close> (key 3) has the left child \<open>l\<close> (key 2),
  whose right link is absent and whose left child is the node of key 1. After
  \<open>rightRotate(n)\<close> the left link of \<open>n\<close> is the node of key 1, that is \<open>l.left\<close>, and
  not the absent \<open>l.right\<close>; the node of key 1 is now a left child of both \<open>l\<close> and \<open>n\<close>.
\<close>

theorem rightRotate_takes_left_of_child:
  "run new_tree [Insert 1, Insert 2, Insert 3] = Some left_chain \<and>
   left_of left_chain 2 = Some 1 \<and> right_of left_chain 1 = None \<and>
   left_of left_chain 1 = Some 0 \<and>
   rightRotate left_chain 2 =
     \<lparr>root = Some 1,
      nodes = [\<lparr>data = 1, left = None, right = None, parent = Some 1\<rparr>,
               \<lparr>data = 2, left = Some 0, right = Some 2, parent = None\<rparr>,
               \<lparr>data = 3, left = Some 0, right = None, parent = Some 1\<rparr>]\<rparr>"
  by code_simp

text \<open>
  Claim C3 (a rotation without the required child is a no-op), evaluated on the code:
  on the tree with the single key 1, \<open>leftRotate(root)\<close> and \<open>rightRotate(root)\<close> set
  the root field to \<open>null\<close>, and in the tree built by inserting 1, 2, 3,
  \<open>leftRotate\<close> of the node of key 2, which has no right child, clears the left link
  of its parent.
\<close>

theorem rotate_without_child_unlinks:
  "run new_tree [Insert 1] = Some single \<and>
   right_of single 0 = None \<and> left_of single 0 = None \<and>
   leftRotate single 0 = single\<lparr>root := None\<rparr> \<and>
   rightRotate single 0 = single\<lparr>root := None\<rparr> \<and>
   right_of left_chain 1 = None \<and>
   left_of left_chain 2 = Some 1 \<and>
   left_of (leftRotate left_chain 1) 2 = None"
  by code_simp

text \<open>
  Claim C4 (parent consistency after any sequence of operations), evaluated on the code:
  after \<open>insert(2); insert(1); delete(1)\<close> the root is the node of key 2, and its
  parent link still refers to the deleted node of key 1.
\<close>

theorem delete_leaves_parent_of_root:
  "run new_tree [Insert 2, Insert 1, Delete 1] = Some stale_root \<and>
   root stale_root = Some 0 \<and> parent_of stale_root 0 = Some 1"
  by code_simp

text \<open>
  Claim C5 (the inserted key is at the root after \<open>insert\<close>), evaluated on the code:
  on the tree built by \<open>insert(2); insert(1); delete(1)\<close>, the call \<open>insert(3)\<close>
  does not return. The new node is linked under the root, a single left rotation
  of the root hangs it under the deleted node that the root's parent link still
  names, the root field stays as it was, and every further iteration of the loop
  of \<open>splay\<close> finds a parent without a grandparent and changes nothing.
\<close>

theorem insert_after_delete_diverges:
  "run new_tree [Insert 2, Insert 1, Delete 1] = Some stale_root \<and>
   insert_key stale_root 3 = None"
proof -
  have 1: "run new_tree [Insert 2, Insert 1, Delete 1] = Some stale_root" by code_simp
  have a: "search stale_root 3 = Some (None, stale_root)" by code_simp
  have b: "root (alloc 3 stale_root) = Some 0" by code_simp
  have c: "insert_descent (alloc 3 stale_root) 3 (Some 0) None = Some (Some 0)" by code_simp
  have d: "set_parent (length (nodes stale_root)) (Some 0)
            (if 3 < data_of (alloc 3 stale_root) 0
             then set_left 0 (Some (length (nodes stale_root))) (alloc 3 stale_root)
             else set_right 0 (Some (length (nodes stale_root))) (alloc 3 stale_root)) = pre_splay"
    by code_simp
  have e: "length (nodes stale_root) = 2" by code_simp
  have 2: "insert_key stale_root 3 = splay pre_splay 2"
    by (simp add: insert_key_def a b c d Let_def) (simp add: e)
  have f: "root pre_splay = Some 0" "root pre_splay \<noteq> Some 2" by code_simp+
  have g: "splay_step 0 2 pre_splay = stuck_state" by code_simp
  have h: "root stuck_state \<noteq> Some 2" "splay_step 0 2 stuck_state = stuck_state" by code_simp+
  have "splay pre_splay 2 = splay_loop 0 2 pre_splay" by (simp add: splay_def f)
  also have "\<dots> = splay_loop 0 2 stuck_state"
    by (subst splay_loop.simps) (simp add: f g)
  also have "\<dots> = None" by (rule splay_loop_stuck [OF h])
  finally show ?thesis using 1 2 by simp
qed

text \<open>
  Claim C6 (\<open>search(x)\<close> returns absent after \<open>delete(x)\<close>), evaluated on the code:
  after \<open>insert(1); insert(2); insert(3); delete(2)\<close> the root is the node of key 1,
  its right child the node of key 3, and the left link of that node leads back to
  the root; \<open>search(2)\<close> walks this cycle and does not return.
\<close>

theorem search_after_delete_diverges:
  "run new_tree [Insert 1, Insert 2, Insert 3, Delete 2] = Some cyclic_state \<and>
   search cyclic_state 2 = None"
proof -
  have 1: "run new_tree [Insert 1, Insert 2, Insert 3, Delete 2] = Some cyclic_state"
    by code_simp
  have r: "root cyclic_state = Some 0" by code_simp
  have "\<forall>a\<in>{0, 2}. data_of cyclic_state a \<noteq> 2 \<and>
      (if 2 < data_of cyclic_state a then left_of cyclic_state a
       else right_of cyclic_state a) \<in> Some ` {0, 2}"
    by code_simp
  then have "search_loop cyclic_state 2 (Some 0) = None"
    by (rule search_loop_cycle) simp
  then show ?thesis using 1 by (simp add: search_def r)
qed




text \<open>
  Claim C8 (\<open>search\<close> returns the node holding the key when the key is present, on
  every tree), evaluated on the code: after \<open>insert(1); insert(4); insert(2); insert(3)\<close>
  the root is the node of key 3 and its right child is the node of key 2, so the key 2
  is in the tree, and \<open>inorder()\<close> lists it. \<open>search(2)\<close> goes left at the root, since
  2 is less than 3, reaches the node of key 1, goes right, finds the link absent and
  returns \<open>null\<close>. The tree is left as it was.
\<close>

theorem search_misses_present_key:
  "run new_tree [Insert 1, Insert 4, Insert 2, Insert 3] = Some shadowed \<and>
   root shadowed = Some 3 \<and> right_of shadowed 3 = Some 2 \<and> data_of shadowed 2 = 2 \<and>
   inorder shadowed = Some [1, 3, 1, 2, 1, 4] \<and>
   left_of shadowed 3 = Some 0 \<and> data_of shadowed 0 = 1 \<and> right_of shadowed 0 = None \<and>
   search shadowed 2 = Some (None, shadowed)"
  by code_simp

text \<open>
  Claim C9: on an empty tree \<open>splay\<close> returns the tree as it is. On a well-formed tree,
  for a node \<open>x\<close> of the tree at depth \<open>d\<close>, \<open>splay(x)\<close> returns after \<open>k \<le> d\<close>
  iterations of its loop with \<open>x\<close> at the root. Before each of these iterations
  \<open>x\<close> is not the root and has a depth \<open>e\<close>; the iteration is a zig exactly when the
  parent of \<open>x\<close> is the root read before the loop, and then the depth of \<open>x\<close> after it
  is \<open>e - 1\<close>, and otherwise \<open>2 \<le> e\<close> and the depth after it is \<open>e - 2\<close>.
\<close>

theorem splay_terminates:
  "(root t = None \<longrightarrow> splay t x = Some t) \<and>
   (wf_tree t T \<and> x \<in> set (refs T) \<longrightarrow>
     (\<exists>r d k. root t = Some r \<and> at_depth t x d \<and> k \<le> d \<and>
        splay t x = Some ((splay_step r x ^^ k) t) \<and>
        root ((splay_step r x ^^ k) t) = Some x \<and>
        (\<forall>i<k. root ((splay_step r x ^^ i) t) \<noteq> Some x \<and>
           (\<exists>e. at_depth ((splay_step r x ^^ i) t) x e \<and>
                (if parent_of ((splay_step r x ^^ i) t) x = Some r then 1 else 2) \<le> e \<and>
                at_depth ((splay_step r x ^^ Suc i) t) x
                  (e - (if parent_of ((splay_step r x ^^ i) t) x = Some r then 1 else 2))))))"
proof (intro conjI impI)
  assume "root t = None"
  then show "splay t x = Some t" by (simp add: splay_def)
next
  assume "wf_tree t T \<and> x \<in> set (refs T)"
  then obtain as where sp: "spine t x as" using wf_tree_spine by blast
  define r where "r = last (x # as)"
  define d where "d = length as"
  define k where "k = (d + 1) div 2"
  define st where "st i = (splay_step r x ^^ i) t" for i
  have rt: "root t = Some r" using sp by (simp add: spine_def r_def)
  have spi: "spine (st i) x (drop (2 * i) as)" for i
    unfolding st_def r_def by (rule spine_funpow [OF sp])
  have dep: "at_depth (st i) x (d - 2 * i)" for i
    using spine_depth [OF spi [of i]] by (simp add: d_def)
  have fin: "root (st k) = Some x"
    using spine_root_iff [OF spi [of k]] by (simp add: k_def d_def)
  have run: "root (st i) \<noteq> Some x" if "i < k" for i
    using spine_root_iff [OF spi [of i]] that by (simp add: k_def d_def)
  have zig: "parent_of (st i) x = Some r \<longleftrightarrow> d - 2 * i = 1" if "i < k" for i
  proof -
    from that have ne: "drop (2 * i) as \<noteq> []" by (simp add: k_def d_def)
    then have "as \<noteq> []" by auto
    with ne have "last (drop (2 * i) as) = r" by (simp add: r_def)
    with spine_zig_test [OF spi [of i] ne] show ?thesis by (simp add: d_def)
  qed
  have loop: "splay_loop r x t = Some (st k)"
    unfolding st_def
    by (rule splay_loop_funpow) (use fin run in \<open>simp_all add: st_def\<close>)
  have steps: "root (st i) \<noteq> Some x \<and>
           (\<exists>e. at_depth (st i) x e \<and>
                (if parent_of (st i) x = Some r then 1 else 2) \<le> e \<and>
                at_depth (st (Suc i)) x
                  (e - (if parent_of (st i) x = Some r then 1 else 2)))" if "i < k" for i
  proof -
    from that have pos: "2 * i < d" by (simp add: k_def)
    have "(if parent_of (st i) x = Some r then 1 else 2) \<le> d - 2 * i"
      using zig [OF that] pos by auto
    moreover have "d - 2 * Suc i = d - 2 * i - (if parent_of (st i) x = Some r then 1 else 2)"
      using zig [OF that] pos by auto
    ultimately show ?thesis using run [OF that] dep [of i] dep [of "Suc i"] by metis
  qed
  have "root t = Some r \<and> at_depth t x d \<and> k \<le> d \<and>
        splay t x = Some (st k) \<and> root (st k) = Some x \<and>
        (\<forall>i<k. root (st i) \<noteq> Some x \<and>
           (\<exists>e. at_depth (st i) x e \<and>
                (if parent_of (st i) x = Some r then 1 else 2) \<le> e \<and>
                at_depth (st (Suc i)) x
                  (e - (if parent_of (st i) x = Some r then 1 else 2))))"
    using rt dep [of 0] loop fin steps by (simp add: splay_def st_def k_def)
  then show "\<exists>r d k. root t = Some r \<and> at_depth t x d \<and> k \<le> d \<and>
        splay t x = Some ((splay_step r x ^^ k) t) \<and>
        root ((splay_step r x ^^ k) t) = Some x \<and>
        (\<forall>i<k. root ((splay_step r x ^^ i) t) \<noteq> Some x \<and>
           (\<exists>e. at_depth ((splay_step r x ^^ i) t) x e \<and>
                (if parent_of ((splay_step r x ^^ i) t) x = Some r then 1 else 2) \<le> e \<and>
                at_depth ((splay_step r x ^^ Suc i) t) x
                  (e - (if parent_of ((splay_step r x ^^ i) t) x = Some r then 1 else 2))))"
    unfolding st_def by blast
qed

theorem splay_terminates_witness:
  "root (new_tree :: int splay_tree) = None \<and> splay (new_tree :: int splay_tree) 0 = Some new_tree \<and>
   wf_tree left_chain chain_shape \<and> 0 \<in> set (refs chain_shape) \<and>
   (\<exists>t'. splay left_chain 0 = Some t' \<and> root t' = Some 0)"
proof -
  have e: "root (new_tree :: int splay_tree) = None" by code_simp
  have w: "wf_tree left_chain chain_shape \<and> 0 \<in> set (refs chain_shape)" by code_simp
  from splay_terminates [of "new_tree :: int splay_tree" 0] e
  have 1: "splay (new_tree :: int splay_tree) 0 = Some new_tree" by blast
  from splay_terminates [of left_chain 0 chain_shape] w
  have 2: "\<exists>t'. splay left_chain 0 = Some t' \<and> root t' = Some 0" by blast
  from e 1 w 2 show ?thesis by blast
qed

text \<open>
  Claim C10: a freshly constructed tree is empty; \<open>getRoot()\<close> returns \<open>null\<close> and
  \<open>inorder()\<close> returns the empty sequence.
\<close>

theorem new_tree_is_empty:
  "getRoot (new_tree :: 'a splay_tree) = None \<and> inorder (new_tree :: 'a splay_tree) = Some []"
  by (simp add: getRoot_def new_tree_def inorder_def inorderHelper.simps)

end
